theory Spec2Isabelle
  imports Main "HOL-Library.AList" "HOL-Library.Word"
begin

section \<open>Data model\<close>

text \<open>
  A Python \<open>str\<close> is a sequence of Unicode code points; a \<open>bytes\<close> value is a sequence
  of octets. Document ids are Python integers, which are unbounded. A \<open>dict\<close> keeps its
  keys unique and enumerates them in insertion order, so it is an association list with
  distinct keys; \<open>d[k] = v\<close> is \<open>AList.update k v d\<close> (an existing key keeps its place,
  a new key goes to the end).
\<close>

type_synonym codepoint = nat
type_synonym pystr = "codepoint list"
type_synonym byte = "8 word"
type_synonym pybytes = "byte list"
type_synonym index = "(pystr \<times> int list) list"

text \<open>The exceptions the modelled functions can raise.\<close>

datatype error =
    ValueError
  | IndexError
  | TypeError
  | StructError
  | UnicodeEncodeError
  | UnicodeDecodeError

text \<open>A string literal of the theory as a Python \<open>str\<close>.\<close>

definition str :: "string \<Rightarrow> pystr" where
  "str s = map of_char s"

section \<open>Text operations of the Python runtime\<close>

text \<open>
  \<open>str.isspace\<close> on one code point: the whitespace table of CPython (the characters of
  bidirectional type WS, B or S, or of category Zs).
\<close>

definition isspace :: "codepoint \<Rightarrow> bool" where
  "isspace c \<longleftrightarrow>
     (9 \<le> c \<and> c \<le> 13) \<or> (28 \<le> c \<and> c \<le> 32) \<or> c = 133 \<or> c = 160 \<or> c = 5760 \<or>
     (8192 \<le> c \<and> c \<le> 8202) \<or> c = 8232 \<or> c = 8233 \<or> c = 8239 \<or> c = 8287 \<or> c = 12288"

text \<open>
  \<open>s.split()\<close> with no argument: the maximal runs of non-whitespace code points, in
  order; no empty token is produced. \<open>split_from cur s\<close> scans \<open>s\<close> with the token read
  so far in \<open>cur\<close>.
\<close>

fun split_from :: "pystr \<Rightarrow> pystr \<Rightarrow> pystr list" where
  "split_from cur [] = (if cur = [] then [] else [cur])"
| "split_from cur (c # cs) =
     (if isspace c then (if cur = [] then split_from [] cs else cur # split_from [] cs)
      else split_from (cur @ [c]) cs)"

definition py_split :: "pystr \<Rightarrow> pystr list" where
  "py_split s = split_from [] s"

text \<open>\<open>s.strip()\<close>: leading and trailing whitespace removed.\<close>

definition py_strip :: "pystr \<Rightarrow> pystr" where
  "py_strip s = rev (dropWhile isspace (rev (dropWhile isspace s)))"

text \<open>\<open>sep.join(xs)\<close>.\<close>

fun py_join :: "pystr \<Rightarrow> pystr list \<Rightarrow> pystr" where
  "py_join sep [] = []"
| "py_join sep [x] = x"
| "py_join sep (x # y # ys) = x @ sep @ py_join sep (y # ys)"

text \<open>
  The built-in \<open>int\<close> applied to a token is a parameter of the loader below
  (\<open>None\<close> stands for its \<open>ValueError\<close>): which strings it accepts depends on the
  version of the interpreter (Unicode digits, underscores, the limit on the number of
  digits). \<open>int_ascii\<close> is the instance used to evaluate the loader on concrete lines:
  an optional sign followed by one or more ASCII digits, where every version of
  \<open>int\<close> returns the decimal value.
\<close>

fun digits_value :: "nat \<Rightarrow> pystr \<Rightarrow> nat option" where
  "digits_value acc [] = Some acc"
| "digits_value acc (c # cs) =
     (if 48 \<le> c \<and> c \<le> 57 then digits_value (10 * acc + (c - 48)) cs else None)"

definition int_ascii :: "pystr \<Rightarrow> int option" where
  "int_ascii s =
     (case s of
        [] \<Rightarrow> None
      | c # cs \<Rightarrow>
          if c = 45 then (if cs = [] then None else map_option (\<lambda>n. - int n) (digits_value 0 cs))
          else if c = 43 then (if cs = [] then None else map_option int (digits_value 0 cs))
          else map_option int (digits_value 0 s))"

section \<open>Document loader: \<open>load_documents\<close>\<close>

text \<open>
  The corpus is the sequence of lines that iterating over the opened file yields. One
  pass of the loop body is
  \<^verbatim>\<open>row = row.strip().split(); documents[int(row[0])] = " ".join(row[1:])\<close>:
  \<open>row[0]\<close> raises \<open>IndexError\<close> on a line without tokens, \<open>int\<close> raises
  \<open>ValueError\<close> on a token it does not accept, and the join of no tokens is the empty
  string. \<open>parse_row\<close> gives the key and the value of the assignment.
\<close>

definition parse_row :: "(pystr \<Rightarrow> int option) \<Rightarrow> pystr \<Rightarrow> error + (int \<times> pystr)" where
  "parse_row py_int row =
     (case py_split (py_strip row) of
        [] \<Rightarrow> Inl IndexError
      | tok # toks \<Rightarrow>
          (case py_int tok of
             None \<Rightarrow> Inl ValueError
           | Some doc_id \<Rightarrow> Inr (doc_id, py_join (str '' '') toks)))"

fun load_documents_loop ::
  "(pystr \<Rightarrow> int option) \<Rightarrow> pystr list \<Rightarrow> (int \<times> pystr) list \<Rightarrow> error + (int \<times> pystr) list" where
  "load_documents_loop py_int [] documents = Inr documents"
| "load_documents_loop py_int (row # fin) documents =
     (case parse_row py_int row of
        Inl e \<Rightarrow> Inl e
      | Inr (doc_id, text) \<Rightarrow> load_documents_loop py_int fin (AList.update doc_id text documents))"

definition load_documents :: "(pystr \<Rightarrow> int option) \<Rightarrow> pystr list \<Rightarrow> error + (int \<times> pystr) list" where
  "load_documents py_int fin = load_documents_loop py_int fin []"

section \<open>Index builder: \<open>build_inverted_index\<close>\<close>

text \<open>
  \<open>index\<close> is a \<open>defaultdict(set)\<close>: \<open>index[word].add(doc_id)\<close> reads the set stored
  under \<open>word\<close>, the empty set when the key is new, and stores it back with \<open>doc_id\<close>
  added. \<open>set_add x s\<close> is \<open>s.add(x)\<close> and \<open>py_list s\<close> is \<open>list(s)\<close> on a set kept as
  a duplicate-free list.
\<close>

definition set_add :: "int \<Rightarrow> int list \<Rightarrow> int list" where
  "set_add x s = (if x \<in> set s then s else s @ [x])"

definition py_list :: "int list \<Rightarrow> int list" where
  "py_list s = s"

definition add_posting :: "pystr \<Rightarrow> int \<Rightarrow> index \<Rightarrow> index" where
  "add_posting word doc_id idx =
     AList.update word (set_add doc_id (case map_of idx word of None \<Rightarrow> [] | Some s \<Rightarrow> s)) idx"

text \<open>The inner loop over the words of one document, and the outer loop over the documents.\<close>

fun index_words :: "int \<Rightarrow> pystr list \<Rightarrow> index \<Rightarrow> index" where
  "index_words doc_id [] idx = idx"
| "index_words doc_id (word # words) idx = index_words doc_id words (add_posting word doc_id idx)"

fun build_loop :: "(int \<times> pystr) list \<Rightarrow> index \<Rightarrow> index" where
  "build_loop [] idx = idx"
| "build_loop ((doc_id, doc_text) # documents) idx =
     build_loop documents (index_words doc_id (py_split doc_text) idx)"

definition build_inverted_index :: "(int \<times> pystr) list \<Rightarrow> index" where
  "build_inverted_index documents = map (\<lambda>(k, v). (k, py_list v)) (build_loop documents [])"

text \<open>The posting set of a word in an index, empty for a word that is not a key.\<close>

definition postings :: "index \<Rightarrow> pystr \<Rightarrow> int set" where
  "postings idx w = (case map_of idx w of None \<Rightarrow> {} | Some s \<Rightarrow> set s)"

section \<open>UTF-8\<close>

text \<open>
  \<open>key.encode('utf8')\<close>: one to four bytes per code point. A surrogate
  (\<open>U+D800\<close> to \<open>U+DFFF\<close>) raises \<open>UnicodeEncodeError\<close>. No Python \<open>str\<close> holds a
  value above \<open>U+10FFFF\<close>; the model gives the same error there.
\<close>

definition utf8_encode_char :: "codepoint \<Rightarrow> error + pybytes" where
  "utf8_encode_char c =
     (if c < 0x80 then Inr [of_nat c]
      else if c < 0x800 then Inr [of_nat (0xC0 + c div 64), of_nat (0x80 + c mod 64)]
      else if c < 0x10000 then
        (if 0xD800 \<le> c \<and> c \<le> 0xDFFF then Inl UnicodeEncodeError
         else Inr [of_nat (0xE0 + c div 4096), of_nat (0x80 + c div 64 mod 64),
                   of_nat (0x80 + c mod 64)])
      else if c < 0x110000 then
        Inr [of_nat (0xF0 + c div 262144), of_nat (0x80 + c div 4096 mod 64),
             of_nat (0x80 + c div 64 mod 64), of_nat (0x80 + c mod 64)]
      else Inl UnicodeEncodeError)"

fun utf8_encode :: "pystr \<Rightarrow> error + pybytes" where
  "utf8_encode [] = Inr []"
| "utf8_encode (c # cs) =
     (case utf8_encode_char c of
        Inl e \<Rightarrow> Inl e
      | Inr b \<Rightarrow> (case utf8_encode cs of Inl e \<Rightarrow> Inl e | Inr bs \<Rightarrow> Inr (b @ bs)))"

text \<open>
  \<open>data.decode("utf8")\<close> with the default strict error handling: any byte sequence that
  is not well-formed UTF-8 (a stray continuation byte, a truncated or overlong sequence, an
  encoded surrogate, a value above \<open>U+10FFFF\<close>) raises \<open>UnicodeDecodeError\<close>.
  \<open>is_cont b\<close> holds of a continuation byte \<open>10xxxxxx\<close> and \<open>cont b\<close> is its payload.
\<close>

definition is_cont :: "byte \<Rightarrow> bool" where
  "is_cont b \<longleftrightarrow> 0x80 \<le> unat b \<and> unat b < 0xC0"

definition cont :: "byte \<Rightarrow> nat" where
  "cont b = unat b - 0x80"

definition decoded :: "codepoint \<Rightarrow> error + pystr \<Rightarrow> error + pystr" where
  "decoded c r = (case r of Inl e \<Rightarrow> Inl e | Inr s \<Rightarrow> Inr (c # s))"

fun utf8_decode :: "pybytes \<Rightarrow> error + pystr" where
  "utf8_decode [] = Inr []"
| "utf8_decode (b0 # bs) =
     (if unat b0 < 0x80 then decoded (unat b0) (utf8_decode bs)
      else if 0xC0 \<le> unat b0 \<and> unat b0 < 0xE0 then
        (case bs of
           b1 # r \<Rightarrow>
             (let c = (unat b0 - 0xC0) * 64 + cont b1
              in if is_cont b1 \<and> 0x80 \<le> c then decoded c (utf8_decode r)
                 else Inl UnicodeDecodeError)
         | _ \<Rightarrow> Inl UnicodeDecodeError)
      else if 0xE0 \<le> unat b0 \<and> unat b0 < 0xF0 then
        (case bs of
           b1 # b2 # r \<Rightarrow>
             (let c = (unat b0 - 0xE0) * 4096 + cont b1 * 64 + cont b2
              in if is_cont b1 \<and> is_cont b2 \<and> 0x800 \<le> c \<and> \<not> (0xD800 \<le> c \<and> c \<le> 0xDFFF)
                 then decoded c (utf8_decode r)
                 else Inl UnicodeDecodeError)
         | _ \<Rightarrow> Inl UnicodeDecodeError)
      else if 0xF0 \<le> unat b0 \<and> unat b0 < 0xF8 then
        (case bs of
           b1 # b2 # b3 # r \<Rightarrow>
             (let c = (unat b0 - 0xF0) * 262144 + cont b1 * 4096 + cont b2 * 64 + cont b3
              in if is_cont b1 \<and> is_cont b2 \<and> is_cont b3 \<and> 0x10000 \<le> c \<and> c < 0x110000
                 then decoded c (utf8_decode r)
                 else Inl UnicodeDecodeError)
         | _ \<Rightarrow> Inl UnicodeDecodeError)
      else Inl UnicodeDecodeError)"

section \<open>The \<open>struct\<close> module\<close>

text \<open>
  The format characters the codec uses: \<open>H\<close> is an unsigned 16-bit and \<open>I\<close> an unsigned
  32-bit integer; \<open>calcsize\<close> is the number of bytes of one value.
\<close>

datatype fmt = H | I

fun calcsize :: "fmt \<Rightarrow> nat" where
  "calcsize H = 2"
| "calcsize I = 4"

text \<open>The \<open>w\<close> bytes of \<open>n\<close>, most significant first, and the value of a big-endian byte string.\<close>

fun be_bytes :: "nat \<Rightarrow> nat \<Rightarrow> pybytes" where
  "be_bytes 0 n = []"
| "be_bytes (Suc w) n = of_nat (n div 256 ^ w mod 256) # be_bytes w n"

definition be_value :: "pybytes \<Rightarrow> nat" where
  "be_value bs = foldl (\<lambda>a b. 256 * a + unat b) 0 bs"

text \<open>
  \<open>struct.pack(">" + f, n)\<close> raises \<open>struct.error\<close> when \<open>n\<close> is outside the range of
  the format; \<open>struct.unpack(">" + f, buf)\<close> raises it when \<open>buf\<close> does not have exactly
  the size of the format.
\<close>

definition pack :: "fmt \<Rightarrow> int \<Rightarrow> error + pybytes" where
  "pack f n =
     (if 0 \<le> n \<and> n < 256 ^ calcsize f then Inr (be_bytes (calcsize f) (nat n))
      else Inl StructError)"

definition unpack :: "fmt \<Rightarrow> pybytes \<Rightarrow> error + int" where
  "unpack f buf =
     (if length buf = calcsize f then Inr (int (be_value buf)) else Inl StructError)"

text \<open>
  The header is packed with the format \<open>"I"\<close>, without a byte-order prefix: four bytes in
  the byte order of the machine (\<open>sys.byteorder\<close>), a parameter of \<open>dump\<close> and \<open>load\<close>.
\<close>

datatype byteorder = LittleEndian | BigEndian

definition native :: "byteorder \<Rightarrow> pybytes \<Rightarrow> pybytes" where
  "native bo bs = (case bo of BigEndian \<Rightarrow> bs | LittleEndian \<Rightarrow> rev bs)"

definition pack_native :: "byteorder \<Rightarrow> int \<Rightarrow> error + pybytes" where
  "pack_native bo n = (case pack I n of Inl e \<Rightarrow> Inl e | Inr bs \<Rightarrow> Inr (native bo bs))"

definition unpack_native :: "byteorder \<Rightarrow> pybytes \<Rightarrow> error + int" where
  "unpack_native bo buf = unpack I (native bo buf)"

text \<open>
  \<open>struct.pack(">" + f * len(xs), *xs)\<close> and \<open>struct.unpack(">" + f * n, buf)\<close>: the
  values one after the other.
\<close>

fun pack_many :: "fmt \<Rightarrow> int list \<Rightarrow> error + pybytes" where
  "pack_many f [] = Inr []"
| "pack_many f (x # xs) =
     (case pack f x of
        Inl e \<Rightarrow> Inl e
      | Inr b \<Rightarrow> (case pack_many f xs of Inl e \<Rightarrow> Inl e | Inr bs \<Rightarrow> Inr (b @ bs)))"

fun chunks :: "nat \<Rightarrow> nat \<Rightarrow> pybytes \<Rightarrow> pybytes list" where
  "chunks w 0 buf = []"
| "chunks w (Suc n) buf = take w buf # chunks w n (drop w buf)"

definition unpack_many :: "fmt \<Rightarrow> nat \<Rightarrow> pybytes \<Rightarrow> error + int list" where
  "unpack_many f n buf =
     (if length buf = n * calcsize f
      then Inr (map (\<lambda>c. int (be_value c)) (chunks (calcsize f) n buf))
      else Inl StructError)"

section \<open>Binary codec: \<open>StructStoragePolicy.dump\<close> and \<open>StructStoragePolicy.load\<close>\<close>

text \<open>\<open>max(xs)\<close> raises \<open>ValueError\<close> on an empty sequence.\<close>

fun py_max :: "int list \<Rightarrow> error + int" where
  "py_max [] = Inl ValueError"
| "py_max (x # xs) = Inr (fold max xs x)"

text \<open>The comprehension \<open>[max(v) for v in index.values()]\<close>.\<close>

fun max_each :: "int list list \<Rightarrow> error + int list" where
  "max_each [] = Inr []"
| "max_each (v # vs) =
     (case py_max v of
        Inl e \<Rightarrow> Inl e
      | Inr m \<Rightarrow> (case max_each vs of Inl e \<Rightarrow> Inl e | Inr ms \<Rightarrow> Inr (m # ms)))"

text \<open>
  The width decision, written twice in the source (in \<open>dump\<close> and in \<open>load\<close>):
  \<open>value_fmt = "H" if max_value < 65535 else "I"\<close> and
  \<open>value_size = 2 if max_value < 65535 else 4\<close>.
\<close>

definition value_fmt_of :: "int \<Rightarrow> fmt" where
  "value_fmt_of max_value = (if max_value < 65535 then H else I)"

definition value_size_of :: "int \<Rightarrow> nat" where
  "value_size_of max_value = (if max_value < 65535 then 2 else 4)"

text \<open>
  The loop of \<open>dump\<close> over \<open>index.items()\<close>; the result is the sequence of bytes written.
\<close>

fun dump_items :: "fmt \<Rightarrow> index \<Rightarrow> error + pybytes" where
  "dump_items value_fmt [] = Inr []"
| "dump_items value_fmt ((key, value) # items) =
     (case utf8_encode key of Inl e \<Rightarrow> Inl e | Inr key_bytes \<Rightarrow>
      (case pack H (int (length key_bytes)) of Inl e \<Rightarrow> Inl e | Inr len_bytes \<Rightarrow>
       (case pack value_fmt (int (length value)) of Inl e \<Rightarrow> Inl e | Inr count_bytes \<Rightarrow>
        (case pack_many value_fmt value of Inl e \<Rightarrow> Inl e | Inr value_bytes \<Rightarrow>
         (case dump_items value_fmt items of Inl e \<Rightarrow> Inl e | Inr rest \<Rightarrow>
            Inr (len_bytes @ key_bytes @ count_bytes @ value_bytes @ rest))))))"

text \<open>
  \<open>dump\<close> returns the content of the file it writes when it completes, and otherwise the
  exception it raises (the file is then absent or incomplete).
\<close>

definition dump :: "byteorder \<Rightarrow> index \<Rightarrow> error + pybytes" where
  "dump bo index =
     (case max_each (map snd index) of Inl e \<Rightarrow> Inl e | Inr ms \<Rightarrow>
      (case py_max ms of Inl e \<Rightarrow> Inl e | Inr max_value \<Rightarrow>
       (case pack_native bo max_value of Inl e \<Rightarrow> Inl e | Inr header \<Rightarrow>
        (case dump_items (value_fmt_of max_value) index of Inl e \<Rightarrow> Inl e | Inr body \<Rightarrow>
           Inr (header @ body)))))"

text \<open>
  The loop of \<open>load\<close>. \<open>fio\<close> is the part of the file not read yet: \<open>fio.read(n)\<close>
  returns \<open>take n fio\<close>, which is shorter than \<open>n\<close> at the end of the file, and leaves
  \<open>drop n fio\<close>. \<open>file_size\<close> is the counter of the source, decreased by the declared
  lengths; it is a Python integer and may become negative.
\<close>

function load_loop :: "fmt \<Rightarrow> nat \<Rightarrow> pybytes \<Rightarrow> int \<Rightarrow> index \<Rightarrow> error + index" where
  "load_loop value_fmt value_size fio file_size index =
     (if file_size > 0 then
        (case unpack H (take 2 fio) of Inl e \<Rightarrow> Inl e | Inr bytes_len \<Rightarrow>
         (case utf8_decode (take (nat bytes_len) (drop 2 fio)) of Inl e \<Rightarrow> Inl e | Inr key \<Rightarrow>
          (case unpack value_fmt (take value_size (drop (nat bytes_len) (drop 2 fio))) of
             Inl e \<Rightarrow> Inl e
           | Inr values_len \<Rightarrow>
            (case unpack_many value_fmt (nat values_len)
                    (take (nat values_len * value_size)
                       (drop value_size (drop (nat bytes_len) (drop 2 fio)))) of
               Inl e \<Rightarrow> Inl e
             | Inr values \<Rightarrow>
                 load_loop value_fmt value_size
                   (drop (nat values_len * value_size)
                      (drop value_size (drop (nat bytes_len) (drop 2 fio))))
                   (file_size - 2 - bytes_len - int value_size - values_len * int value_size)
                   (AList.update key values index)))))
      else Inr index)"
  by pat_completeness auto
termination
proof (relation "measure (\<lambda>(value_fmt, value_size, fio, file_size, index). nat file_size)")
  show "wf (measure (\<lambda>(value_fmt, value_size, fio, file_size, index). nat file_size))"
    by simp
next
  fix value_fmt :: fmt and value_size :: nat and fio :: pybytes and file_size :: int
    and index :: index and bytes_len values_len :: int and key' :: pystr and values' :: "int list"
  assume pos: "0 < file_size"
    and len: "unpack H (take 2 fio) = Inr bytes_len"
    and cnt: "unpack value_fmt (take value_size (drop (nat bytes_len) (drop 2 fio))) = Inr values_len"
  from len have "0 \<le> bytes_len"
    by (auto simp: unpack_def split: if_splits)
  moreover from cnt have "0 \<le> values_len"
    by (auto simp: unpack_def split: if_splits)
  then have "0 \<le> values_len * int value_size"
    by simp
  ultimately
  show "((value_fmt, value_size,
          drop (nat values_len * value_size) (drop value_size (drop (nat bytes_len) (drop 2 fio))),
          file_size - 2 - bytes_len - int value_size - values_len * int value_size,
          AList.update key' values' index),
         (value_fmt, value_size, fio, file_size, index))
        \<in> measure (\<lambda>(value_fmt, value_size, fio, file_size, index). nat file_size)"
    using pos by simp
qed

declare load_loop.simps [simp del]

text \<open>
  \<open>load\<close> on the content of the file at \<open>filepath\<close>: the header is read with the native
  format \<open>"I"\<close>, the width follows from it, and the loop starts on an empty \<open>index\<close>.
\<close>

definition load :: "byteorder \<Rightarrow> pybytes \<Rightarrow> error + index" where
  "load bo file =
     (case unpack_native bo (take 4 file) of
        Inl e \<Rightarrow> Inl e
      | Inr max_value \<Rightarrow>
          load_loop (value_fmt_of max_value) (value_size_of max_value) (drop 4 file)
            (int (length file) - 4) [])"

section \<open>Query engine: \<open>InvertedIndex.query\<close>\<close>

text \<open>
  A Python \<open>set\<close> of ints is kept as a duplicate-free list. The order in which Python
  enumerates a set is unspecified; the model keeps the order of first occurrence, and the
  theorems below speak only of membership and emptiness.
  \<open>py_set xs\<close> is \<open>set(xs)\<close>; \<open>intersection_update s t\<close> is \<open>s.intersection_update(t)\<close>.
\<close>

definition py_set :: "int list \<Rightarrow> int list" where
  "py_set xs = remdups xs"

definition intersection_update :: "int list \<Rightarrow> int list \<Rightarrow> int list" where
  "intersection_update s t = filter (\<lambda>x. x \<in> set t) s"

text \<open>
  The loop of \<open>query\<close>, with the accumulator \<open>tmp\<close> (\<open>None\<close> while unset). The first
  component of the result lists the words on which the loop body ran, that is the words
  tested with \<open>word in self._index\<close>, in order; the second is what the call returns or
  raises. After the loop the code returns \<open>list(tmp)\<close>, and \<open>list(None)\<close> raises
  \<open>TypeError\<close>.
\<close>

fun query_loop :: "index \<Rightarrow> pystr list \<Rightarrow> int list option \<Rightarrow> pystr list \<times> (error + int list)" where
  "query_loop idx [] tmp =
     ([], case tmp of None \<Rightarrow> Inl TypeError | Some s \<Rightarrow> Inr s)"
| "query_loop idx (word # words) tmp =
     (case map_of idx word of
        None \<Rightarrow> ([word], Inr [])
      | Some docs \<Rightarrow>
          (let tmp' = (case tmp of
                         None \<Rightarrow> py_set docs
                       | Some s \<Rightarrow> intersection_update s (py_set docs));
               r = query_loop idx words (Some tmp')
           in (word # fst r, snd r)))"

definition query :: "index \<Rightarrow> pystr list \<Rightarrow> error + int list" where
  "query idx words = snd (query_loop idx words None)"

definition query_examined :: "index \<Rightarrow> pystr list \<Rightarrow> pystr list" where
  "query_examined idx words = fst (query_loop idx words None)"

section \<open>The maximum id and the file layout in the words of the specification\<close>

text \<open>
  These definitions are not taken from the code: they restate the specification, and the
  theorems on \<open>dump\<close> compare the code with them. \<open>max_id\<close> is the largest document id
  appearing in any posting list, across the whole index.
\<close>

definition max_id :: "index \<Rightarrow> int" where
  "max_id index = Max (\<Union>v \<in> snd ` set index. set v)"

text \<open>
  The layout of the binary index file for a value width \<open>w\<close>: the header is \<open>max_id\<close>
  in four bytes; each record is the length of the term in two bytes, big-endian, the
  UTF-8 bytes of the term, the number of postings in \<open>w\<close> bytes, big-endian, and each
  posting id in \<open>w\<close> bytes, big-endian, in list order.
\<close>

definition utf8_bytes :: "pystr \<Rightarrow> pybytes" where
  "utf8_bytes k = (case utf8_encode k of Inl e \<Rightarrow> [] | Inr b \<Rightarrow> b)"

definition spec_record :: "nat \<Rightarrow> pystr \<times> int list \<Rightarrow> pybytes" where
  "spec_record w item =
     be_bytes 2 (length (utf8_bytes (fst item))) @ utf8_bytes (fst item) @
     be_bytes w (length (snd item)) @ concat (map (\<lambda>x. be_bytes w (nat x)) (snd item))"

definition spec_file :: "byteorder \<Rightarrow> nat \<Rightarrow> index \<Rightarrow> pybytes" where
  "spec_file bo w index =
     native bo (be_bytes 4 (nat (max_id index))) @ concat (map (spec_record w) index)"

section \<open>Properties of the query engine\<close>

lemma query_loop_absent:
  "set pre \<subseteq> fst ` set idx \<Longrightarrow> a \<notin> fst ` set idx \<Longrightarrow>
   query_loop idx (pre @ a # post) tmp = (pre @ [a], Inr [])"
proof (induction pre arbitrary: tmp)
  case Nil
  then have "map_of idx a = None"
    by (simp add: map_of_eq_None_iff)
  then show ?case by simp
next
  case (Cons w pre)
  from Cons.prems obtain docs where "map_of idx w = Some docs"
    by (cases "map_of idx w") (auto simp: map_of_eq_None_iff)
  with Cons show ?case by (simp add: Let_def)
qed

lemma first_absent_split:
  "t \<in> set T \<Longrightarrow> t \<notin> K \<Longrightarrow>
   \<exists>pre a post. T = pre @ a # post \<and> set pre \<subseteq> K \<and> a \<notin> K"
proof (induction T)
  case Nil
  then show ?case by simp
next
  case (Cons x T)
  show ?case
  proof (cases "x \<in> K")
    case False
    then have "x # T = [] @ x # T \<and> set [] \<subseteq> K \<and> x \<notin> K" by simp
    then show ?thesis by blast
  next
    case True
    with Cons.prems have "t \<in> set T" by auto
    from Cons.IH [OF this Cons.prems(2)] obtain pre a post
      where "T = pre @ a # post" "set pre \<subseteq> K" "a \<notin> K" by blast
    with True have "x # T = (x # pre) @ a # post \<and> set (x # pre) \<subseteq> K \<and> a \<notin> K"
      by simp
    then show ?thesis by blast
  qed
qed

text \<open>
  Claim C5. The spec says that \<open>query\<close> called with an empty term list returns the empty
  result. The code does not: the loop body never runs, \<open>tmp\<close> is still \<open>None\<close>, and
  \<open>list(tmp)\<close> raises \<open>TypeError\<close>, whatever the index is.
\<close>

theorem query_empty_terms_raises: "query idx [] = Inl TypeError"
  by (simp add: query_def)

text \<open>
  Claim C4. When some term of \<open>T\<close> is not a key of the index, \<open>query\<close> returns the empty
  list. The term list then splits at its first absent term \<open>a\<close>: the words the loop
  examined are exactly the ones up to and including \<open>a\<close>, and the result is the same empty
  list whatever follows \<open>a\<close>.
\<close>

theorem query_short_circuit:
  assumes "t \<in> set T" and "t \<notin> fst ` set idx"
  shows "query idx T = Inr [] \<and>
         (\<exists>pre a post. T = pre @ a # post \<and> set pre \<subseteq> fst ` set idx \<and> a \<notin> fst ` set idx \<and>
            query_examined idx T = pre @ [a] \<and>
            (\<forall>post'. query idx (pre @ a # post') = Inr [] \<and>
                      query_examined idx (pre @ a # post') = pre @ [a]))"
proof -
  from first_absent_split [OF assms] obtain pre a post
    where T: "T = pre @ a # post" and pre: "set pre \<subseteq> fst ` set idx"
      and a: "a \<notin> fst ` set idx" by blast
  have run: "query_loop idx (pre @ a # p) None = (pre @ [a], Inr [])" for p
    using query_loop_absent [OF pre a] .
  have "query idx T = Inr []"
    by (simp add: query_def T run)
  moreover have "query_examined idx T = pre @ [a]"
    by (simp add: query_examined_def T run)
  moreover have "\<forall>post'. query idx (pre @ a # post') = Inr [] \<and>
                   query_examined idx (pre @ a # post') = pre @ [a]"
    by (simp add: query_def query_examined_def run)
  ultimately show ?thesis using T pre a by blast
qed

theorem query_short_circuit_witness:
  "str ''b'' \<in> set [str ''a'', str ''b'', str ''c''] \<and>
   str ''b'' \<notin> fst ` set [(str ''a'', [1, 2 :: int])] \<and>
   query [(str ''a'', [1, 2])] [str ''a'', str ''b'', str ''c''] = Inr [] \<and>
   query_examined [(str ''a'', [1, 2])] [str ''a'', str ''b'', str ''c''] = [str ''a'', str ''b'']"
proof -
  have h1: "str ''b'' \<in> set [str ''a'', str ''b'', str ''c'']"
    by (simp add: str_def)
  have h2: "str ''b'' \<notin> fst ` set [(str ''a'', [1, 2 :: int])]"
    by (simp add: str_def)
  have ex: "query_examined [(str ''a'', [1, 2])] [str ''a'', str ''b'', str ''c'']
            = [str ''a'', str ''b'']"
    by (simp add: query_examined_def str_def)
  from query_short_circuit [OF h1 h2] h1 h2 ex show ?thesis by blast
qed

section \<open>Properties of the index builder and of queries on a built index\<close>

lemma keys_add_posting: "fst ` set (add_posting w d idx) = insert w (fst ` set idx)"
  by (simp add: add_posting_def AList.dom_update)

lemma postings_add_posting:
  "postings (add_posting w d idx) w' = (if w' = w then insert d (postings idx w) else postings idx w')"
  by (auto simp: postings_def add_posting_def AList.update_conv' set_add_def split: option.splits)

lemma keys_index_words: "fst ` set (index_words d ws idx) = fst ` set idx \<union> set ws"
  by (induction ws arbitrary: idx) (auto simp: keys_add_posting)

lemma postings_index_words:
  "postings (index_words d ws idx) w = postings idx w \<union> (if w \<in> set ws then {d} else {})"
  by (induction ws arbitrary: idx) (auto simp: postings_add_posting)

lemma keys_build_loop:
  "fst ` set (build_loop docs idx) = fst ` set idx \<union> (\<Union>(d, text) \<in> set docs. set (py_split text))"
  by (induction docs idx rule: build_loop.induct) (auto simp: keys_index_words)

lemma postings_build_loop:
  "postings (build_loop docs idx) w =
     postings idx w \<union> {d. \<exists>text. (d, text) \<in> set docs \<and> w \<in> set (py_split text)}"
  by (induction docs idx rule: build_loop.induct) (auto simp: postings_index_words)

lemma build_eq: "build_inverted_index documents = build_loop documents []"
  by (simp add: build_inverted_index_def py_list_def)

lemma keys_build:
  "w \<in> fst ` set (build_inverted_index docs) \<longleftrightarrow> (\<exists>d text. (d, text) \<in> set docs \<and> w \<in> set (py_split text))"
  by (auto simp: build_eq keys_build_loop)

lemma postings_build:
  "postings (build_inverted_index docs) w = {d. \<exists>text. (d, text) \<in> set docs \<and> w \<in> set (py_split text)}"
  using postings_build_loop [of docs "[]" w] by (simp add: build_eq postings_def)

lemma query_loop_present:
  "set words \<subseteq> fst ` set idx \<Longrightarrow>
   \<exists>r. snd (query_loop idx words (Some s)) = Inr r \<and>
       set r = set s \<inter> {d. \<forall>w \<in> set words. d \<in> postings idx w}"
proof (induction words arbitrary: s)
  case Nil
  then show ?case by simp
next
  case (Cons w words)
  from Cons.prems obtain docs where docs: "map_of idx w = Some docs"
    by (cases "map_of idx w") (auto simp: map_of_eq_None_iff)
  from Cons.prems have "set words \<subseteq> fst ` set idx" by simp
  from Cons.IH [OF this, of "intersection_update s (py_set docs)"] docs
  show ?case
    by (auto simp: Let_def postings_def intersection_update_def py_set_def)
qed

lemma query_present:
  assumes "words \<noteq> []" and "set words \<subseteq> fst ` set idx"
  shows "\<exists>r. query idx words = Inr r \<and> set r = {d. \<forall>w \<in> set words. d \<in> postings idx w}"
proof -
  from assms obtain w ws where words: "words = w # ws" by (cases words) auto
  from assms words obtain docs where docs: "map_of idx w = Some docs"
    by (cases "map_of idx w") (auto simp: map_of_eq_None_iff)
  from assms words have "set ws \<subseteq> fst ` set idx" by simp
  from query_loop_present [OF this, of "py_set docs"] docs
  show ?thesis
    by (auto simp: query_def words Let_def postings_def py_set_def)
qed


lemma query_absent:
  assumes "t \<in> set T" and "t \<notin> fst ` set idx"
  shows "query idx T = Inr []"
proof -
  from first_absent_split [OF assms] obtain pre a post
    where "T = pre @ a # post" "set pre \<subseteq> fst ` set idx" "a \<notin> fst ` set idx" by blast
  then show ?thesis by (simp add: query_def query_loop_absent)
qed

text \<open>
  Claim C2 says that a document \<open>d\<close> is in \<open>query(T)\<close> on the built index exactly when the
  tokens of its text contain every term of \<open>T\<close>, for every term list \<open>T\<close>. For the empty
  term list the right-hand side holds of every document, while the call raises and returns
  no document at all.
\<close>

theorem query_intersection_empty_terms_counterexample:
  "query (build_inverted_index [(1, str ''a'')]) [] = Inl TypeError \<and>
   set ([] :: pystr list) \<subseteq> set (py_split (str ''a''))"
  by (simp add: query_def)

text \<open>
  Claim C2, amended to non-empty term lists. For a documents mapping (distinct ids), a
  document \<open>d\<close> with text \<open>text\<close> in it and a non-empty term list \<open>T\<close>: \<open>query(T)\<close> on the
  built index returns a list that contains \<open>d\<close> if and only if every term of \<open>T\<close> is among
  the whitespace-split tokens of \<open>text\<close>.
\<close>

theorem query_intersection_nonempty:
  assumes "distinct (map fst documents)" and "(d, text) \<in> set documents" and "T \<noteq> []"
  shows "(\<exists>r. query (build_inverted_index documents) T = Inr r \<and> d \<in> set r)
         \<longleftrightarrow> set T \<subseteq> set (py_split text)"
proof (cases "set T \<subseteq> fst ` set (build_inverted_index documents)")
  case True
  from query_present [OF assms(3) True] obtain r
    where r: "query (build_inverted_index documents) T = Inr r"
      and mem: "set r = {d. \<forall>w \<in> set T. d \<in> postings (build_inverted_index documents) w}"
    by blast
  have only: "text' = text" if "(d, text') \<in> set documents" for text'
    using eq_key_imp_eq_value [OF assms(1) that assms(2)] .
  have "d \<in> postings (build_inverted_index documents) w \<longleftrightarrow> w \<in> set (py_split text)" for w
    unfolding postings_build using assms(2) only by blast
  then have "d \<in> set r \<longleftrightarrow> set T \<subseteq> set (py_split text)"
    unfolding mem by blast
  with r show ?thesis by simp
next
  case False
  then obtain t where t: "t \<in> set T" "t \<notin> fst ` set (build_inverted_index documents)"
    by blast
  then have "query (build_inverted_index documents) T = Inr []"
    by (rule query_absent)
  moreover have "t \<notin> set (py_split text)"
    using t(2) assms(2) keys_build by blast
  ultimately show ?thesis using t(1) by auto
qed

theorem query_intersection_nonempty_witness:
  "distinct (map fst [(547 :: int, str ''The Adventures of''), (645, str ''The House of'')]) \<and>
   (547, str ''The Adventures of'') \<in> set [(547 :: int, str ''The Adventures of''), (645, str ''The House of'')] \<and>
   [str ''The'', str ''Adventures''] \<noteq> [] \<and>
   set [str ''The'', str ''Adventures''] \<subseteq> set (py_split (str ''The Adventures of'')) \<and>
   (\<exists>r. query (build_inverted_index [(547, str ''The Adventures of''), (645, str ''The House of'')])
          [str ''The'', str ''Adventures''] = Inr r \<and> 547 \<in> set r)"
proof -
  have h1: "distinct (map fst [(547 :: int, str ''The Adventures of''), (645, str ''The House of'')])"
    by simp
  have h2: "(547, str ''The Adventures of'') \<in> set [(547 :: int, str ''The Adventures of''), (645, str ''The House of'')]"
    by simp
  have h3: "[str ''The'', str ''Adventures''] \<noteq> []"
    by simp
  have toks: "set [str ''The'', str ''Adventures''] \<subseteq> set (py_split (str ''The Adventures of''))"
    by (simp add: py_split_def str_def isspace_def)
  from query_intersection_nonempty [OF h1 h2 h3] toks h1 h2 h3 show ?thesis by blast
qed

section \<open>Properties of the document loader\<close>

text \<open>
  When every line is accepted, the loop performs the assignments of the lines in order;
  it stops with the error of the first line that is not accepted.
\<close>

lemma load_documents_loop_ok:
  "\<forall>r \<in> set fin. \<exists>p. parse_row py_int r = Inr p \<Longrightarrow>
   load_documents_loop py_int fin documents =
     Inr (foldl (\<lambda>acc p. AList.update (fst p) (snd p) acc) documents
            (map (\<lambda>r. projr (parse_row py_int r)) fin))"
proof (induction fin arbitrary: documents)
  case Nil
  then show ?case by simp
next
  case (Cons row fin)
  from Cons.prems obtain d t where row: "parse_row py_int row = Inr (d, t)" by fastforce
  from Cons.prems have "\<forall>r \<in> set fin. \<exists>p. parse_row py_int r = Inr p" by simp
  from Cons.IH [OF this] row show ?case by simp
qed

lemma load_documents_loop_abort:
  "\<forall>r \<in> set pre. \<exists>p. parse_row py_int r = Inr p \<Longrightarrow> parse_row py_int row = Inl e \<Longrightarrow>
   load_documents_loop py_int (pre @ row # post) documents = Inl e"
proof (induction pre arbitrary: documents)
  case Nil
  then show ?case by simp
next
  case (Cons r pre)
  from Cons.prems obtain d t where r: "parse_row py_int r = Inr (d, t)" by fastforce
  from Cons.prems have "\<forall>r \<in> set pre. \<exists>p. parse_row py_int r = Inr p" by simp
  from Cons.IH [OF this Cons.prems(2)] r show ?case by simp
qed

lemma map_of_foldl_update:
  "map_of (foldl (\<lambda>acc p. AList.update (fst p) (snd p) acc) al kvs) = map_of al ++ map_of (rev kvs)"
proof (induction kvs arbitrary: al)
  case Nil
  then show ?case by simp
next
  case (Cons p kvs)
  show ?case
    by (cases p) (simp add: Cons.IH AList.update_conv' map_add_upd_left fun_eq_iff map_add_def split: option.splits)
qed


text \<open>
  Claim C7 says that a line with a non-integer first token, or with no token after the
  id, fails, and that the load aborts there. A line that holds only an id does not fail:
  \<open>row[1:]\<close> is empty, its join is the empty string, and the id is stored with the empty
  text.
\<close>

theorem load_documents_id_only_line_counterexample:
  "load_documents int_ascii [str ''123''] = Inr [(123, [])]"
  by (simp add: load_documents_def parse_row_def py_strip_def py_split_def str_def
      isspace_def int_ascii_def)

text \<open>
  Claim C7, amended. Let every line before \<open>row\<close> be accepted and let \<open>tok\<close> be the first
  token of \<open>row\<close>. If \<open>int\<close> rejects \<open>tok\<close>, the load raises \<open>ValueError\<close> at this line,
  whatever lines follow, and yields no mapping. If \<open>int\<close> accepts \<open>tok\<close> as \<open>d\<close> and no
  token follows it, the line is accepted: the load of the lines up to \<open>row\<close> succeeds and
  maps \<open>d\<close> to the empty text.
\<close>

theorem load_documents_malformed_line:
  assumes "\<forall>r \<in> set pre. \<exists>p. parse_row py_int r = Inr p"
    and "py_split (py_strip row) = tok # toks"
  shows "(py_int tok = None \<longrightarrow> load_documents py_int (pre @ row # post) = Inl ValueError) \<and>
         (py_int tok = Some d \<and> toks = [] \<longrightarrow>
            (\<exists>docs. load_documents py_int (pre @ [row]) = Inr docs \<and> map_of docs d = Some []))"
proof (intro conjI impI)
  assume "py_int tok = None"
  with assms(2) have "parse_row py_int row = Inl ValueError"
    by (simp add: parse_row_def)
  from load_documents_loop_abort [OF assms(1) this]
  show "load_documents py_int (pre @ row # post) = Inl ValueError"
    by (simp add: load_documents_def)
next
  assume "py_int tok = Some d \<and> toks = []"
  with assms(2) have row: "parse_row py_int row = Inr (d, [])"
    by (simp add: parse_row_def)
  with assms(1) have "\<forall>r \<in> set (pre @ [row]). \<exists>p. parse_row py_int r = Inr p"
    by simp
  from load_documents_loop_ok [OF this, of "[]"] row
  show "\<exists>docs. load_documents py_int (pre @ [row]) = Inr docs \<and> map_of docs d = Some []"
    by (simp add: load_documents_def AList.update_conv')
qed

theorem load_documents_malformed_line_witness:
  "(\<exists>p. parse_row int_ascii (str ''1 a'') = Inr p) \<and>
   py_split (py_strip (str ''x7 b'')) = [str ''x7'', str ''b''] \<and>
   int_ascii (str ''x7'') = None \<and>
   load_documents int_ascii [str ''1 a'', str ''x7 b'', str ''2 c''] = Inl ValueError \<and>
   py_split (py_strip (str ''7'')) = [str ''7''] \<and>
   int_ascii (str ''7'') = Some 7 \<and>
   (\<exists>docs. load_documents int_ascii [str ''1 a'', str ''7''] = Inr docs \<and> map_of docs 7 = Some [])"
proof -
  have pre: "\<forall>r \<in> set [str ''1 a'']. \<exists>p. parse_row int_ascii r = Inr p"
    by (simp add: parse_row_def py_strip_def py_split_def str_def isspace_def int_ascii_def)
  have bad: "py_split (py_strip (str ''x7 b'')) = str ''x7'' # [str ''b'']"
    by (simp add: py_strip_def py_split_def str_def isspace_def)
  have rej: "int_ascii (str ''x7'') = None"
    by (simp add: str_def int_ascii_def)
  have only: "py_split (py_strip (str ''7'')) = str ''7'' # []"
    by (simp add: py_strip_def py_split_def str_def isspace_def)
  have acc: "int_ascii (str ''7'') = Some 7"
    by (simp add: str_def int_ascii_def)
  from load_documents_malformed_line [OF pre bad, where d = 0 and post = "[str ''2 c'']"] rej
  have 1: "load_documents int_ascii [str ''1 a'', str ''x7 b'', str ''2 c''] = Inl ValueError"
    by simp
  from load_documents_malformed_line [OF pre only, where d = 7 and post = "[]"] acc
  have 2: "\<exists>docs. load_documents int_ascii [str ''1 a'', str ''7''] = Inr docs \<and> map_of docs 7 = Some []"
    by simp
  from pre have pre': "\<exists>p. parse_row int_ascii (str ''1 a'') = Inr p"
    by simp
  from pre' bad rej 1 only acc 2 show ?thesis by simp
qed

text \<open>
  Claim C9. In a corpus whose lines are all accepted, let \<open>row\<close> be the last line bearing
  the id \<open>d\<close> (no line after it has this id; lines before it may). Loading succeeds, and
  the mapping it returns sends \<open>d\<close> to the text of \<open>row\<close>.
\<close>

theorem load_documents_last_write_wins:
  assumes "\<forall>r \<in> set (pre @ row # post). \<exists>p. parse_row py_int r = Inr p"
    and "parse_row py_int row = Inr (d, t)"
    and "\<forall>r \<in> set post. \<forall>t'. parse_row py_int r \<noteq> Inr (d, t')"
  shows "\<exists>docs. load_documents py_int (pre @ row # post) = Inr docs \<and> map_of docs d = Some t"
proof -
  let ?parse = "\<lambda>r. projr (parse_row py_int r)"
  have "d \<notin> fst ` set (map ?parse post)"
  proof
    assume "d \<in> fst ` set (map ?parse post)"
    then obtain r where r: "r \<in> set post" "fst (?parse r) = d" by auto
    from assms(1) r(1) have "\<exists>p. parse_row py_int r = Inr p" by simp
    then obtain p where p: "parse_row py_int r = Inr p" ..
    with r(2) have "parse_row py_int r = Inr (d, snd p)" by (cases p) simp
    with assms(3) r(1) show False by blast
  qed
  then have none: "map_of (rev (map ?parse post)) d = None"
    by (simp add: map_of_eq_None_iff)
  have last: "map_of (rev (map ?parse (pre @ row # post))) d = Some t"
    using none assms(2) by (simp add: map_add_def)
  have res: "map_of (foldl (\<lambda>acc p. AList.update (fst p) (snd p) acc) []
               (map ?parse (pre @ row # post))) d = Some t"
    by (subst map_of_foldl_update) (use last in simp)
  from load_documents_loop_ok [OF assms(1), of "[]"]
  have "load_documents py_int (pre @ row # post) =
          Inr (foldl (\<lambda>acc p. AList.update (fst p) (snd p) acc) []
               (map ?parse (pre @ row # post)))"
    unfolding load_documents_def .
  with res show ?thesis by blast
qed

theorem load_documents_last_write_wins_witness:
  "parse_row int_ascii (str ''7 first text'') = Inr (7, str ''first text'') \<and>
   parse_row int_ascii (str ''+7  second   text'') = Inr (7, str ''second text'') \<and>
   parse_row int_ascii (str ''8 other'') = Inr (8, str ''other'') \<and>
   (\<exists>docs. load_documents int_ascii ([str ''7 first text''] @ str ''+7  second   text'' # [str ''8 other''])
            = Inr docs \<and> map_of docs 7 = Some (str ''second text''))"
proof -
  have h1: "\<forall>r \<in> set ([str ''7 first text''] @ str ''+7  second   text'' # [str ''8 other'']).
      \<exists>p. parse_row int_ascii r = Inr p"
    by (simp add: parse_row_def py_strip_def py_split_def str_def isspace_def int_ascii_def)
  have h2: "parse_row int_ascii (str ''+7  second   text'') = Inr (7, str ''second text'')"
    by (simp add: parse_row_def py_strip_def py_split_def str_def isspace_def int_ascii_def)
  have h3: "\<forall>r \<in> set [str ''8 other'']. \<forall>t'. parse_row int_ascii r \<noteq> Inr (7, t')"
    by (simp add: parse_row_def py_strip_def py_split_def str_def isspace_def int_ascii_def)
  have r1: "parse_row int_ascii (str ''7 first text'') = Inr (7, str ''first text'')"
    by (simp add: parse_row_def py_strip_def py_split_def str_def isspace_def int_ascii_def)
  have r3: "parse_row int_ascii (str ''8 other'') = Inr (8, str ''other'')"
    by (simp add: parse_row_def py_strip_def py_split_def str_def isspace_def int_ascii_def)
  from load_documents_last_write_wins [OF h1 h2 h3] r1 h2 r3 show ?thesis by blast
qed

section \<open>Properties of the \<open>struct\<close> model\<close>

text \<open>Evaluation of \<open>be_bytes\<close> at the two widths in use.\<close>

lemma be_bytes_2: "be_bytes 2 n = [of_nat (n div 256 mod 256), of_nat (n mod 256)]"
  by (simp add: numeral_2_eq_2)

lemma be_bytes_4:
  "be_bytes 4 n = [of_nat (n div 16777216 mod 256), of_nat (n div 65536 mod 256),
                   of_nat (n div 256 mod 256), of_nat (n mod 256)]"
proof -
  have four: "(4::nat) = Suc (Suc (Suc (Suc 0)))" by simp
  show ?thesis unfolding four by simp
qed

lemma length_be_bytes: "length (be_bytes w n) = w"
  by (induction w) simp_all

lemma unat_byte_of_nat: "unat (of_nat (x mod 256) :: byte) = x mod 256"
  by (simp add: unat_of_nat)

lemma foldl_be_bytes:
  "foldl (\<lambda>a b. 256 * a + unat b) a (be_bytes w n) = a * 256 ^ w + n mod 256 ^ w"
proof (induction w arbitrary: a)
  case 0
  then show ?case by simp
next
  case (Suc w)
  have "n mod 256 ^ Suc w = n mod (256 ^ w * 256)"
    by (simp add: mult.commute)
  also have "\<dots> = 256 ^ w * (n div 256 ^ w mod 256) + n mod 256 ^ w"
    by (rule mod_mult2_eq)
  finally have split: "n mod 256 ^ Suc w = 256 ^ w * (n div 256 ^ w mod 256) + n mod 256 ^ w" .
  have "foldl (\<lambda>a b. 256 * a + unat b) a (be_bytes (Suc w) n)
        = (256 * a + n div 256 ^ w mod 256) * 256 ^ w + n mod 256 ^ w"
    by (simp add: Suc.IH unat_byte_of_nat)
  also have "\<dots> = a * 256 ^ Suc w + n mod 256 ^ Suc w"
    unfolding split by (simp add: algebra_simps)
  finally show ?case .
qed

lemma be_value_be_bytes: "n < 256 ^ w \<Longrightarrow> be_value (be_bytes w n) = n"
  by (simp add: be_value_def foldl_be_bytes)

lemma pack_length: "pack f n = Inr bs \<Longrightarrow> length bs = calcsize f"
  by (auto simp: pack_def length_be_bytes split: if_splits)

lemma unpack_pack: "pack f n = Inr bs \<Longrightarrow> unpack f bs = Inr n"
proof -
  assume p: "pack f n = Inr bs"
  then have range: "0 \<le> n" "n < 256 ^ calcsize f" and bs: "bs = be_bytes (calcsize f) (nat n)"
    by (auto simp: pack_def split: if_splits)
  from range have "nat n < 256 ^ calcsize f"
    by (simp add: nat_less_iff)
  then have "be_value bs = nat n"
    unfolding bs by (rule be_value_be_bytes)
  with range(1) show ?thesis
    by (simp add: unpack_def bs length_be_bytes)
qed

lemma pack_range: "pack f n = Inr bs \<Longrightarrow> 0 \<le> n \<and> n < 256 ^ calcsize f"
  by (auto simp: pack_def split: if_splits)

lemma pack_native_length: "pack_native bo n = Inr h \<Longrightarrow> length h = 4"
  by (auto simp: pack_native_def native_def dest: pack_length split: sum.splits byteorder.splits)

lemma native_native: "native bo (native bo bs) = bs"
  by (cases bo) (simp_all add: native_def)

lemma unpack_native_pack_native: "pack_native bo n = Inr h \<Longrightarrow> unpack_native bo h = Inr n"
  by (auto simp: pack_native_def unpack_native_def native_native dest: unpack_pack split: sum.splits)

lemma pack_many_length: "pack_many f xs = Inr bs \<Longrightarrow> length bs = length xs * calcsize f"
proof (induction xs arbitrary: bs)
  case Nil
  then show ?case by simp
next
  case (Cons x xs)
  then show ?case
    by (auto simp: pack_length split: sum.splits)
qed

lemma chunks_pack_many:
  "pack_many f xs = Inr bs \<Longrightarrow>
   map (\<lambda>c. int (be_value c)) (chunks (calcsize f) (length xs) bs) = xs"
proof (induction xs arbitrary: bs)
  case Nil
  then show ?case by simp
next
  case (Cons x xs)
  from Cons.prems obtain b bs' where b: "pack f x = Inr b" and bs': "pack_many f xs = Inr bs'"
    and bs: "bs = b @ bs'"
    by (auto split: sum.splits)
  from unpack_pack [OF b] have "int (be_value b) = x"
    by (auto simp: unpack_def split: if_splits)
  with Cons.IH [OF bs'] pack_length [OF b] show ?case
    by (simp add: bs)
qed

lemma unpack_many_pack_many:
  "pack_many f xs = Inr bs \<Longrightarrow> unpack_many f (length xs) bs = Inr xs"
  by (simp add: unpack_many_def pack_many_length chunks_pack_many)

section \<open>UTF-8 decoding inverts encoding\<close>

lemma unat_byte: "x < 256 \<Longrightarrow> unat (of_nat x :: byte) = x"
  by (simp add: unat_of_nat)

text \<open>The decoder on a well-formed sequence of one, two, three and four bytes.\<close>

lemma utf8_decode_1:
  assumes "unat b0 = c" and "c < 0x80"
  shows "utf8_decode (b0 # rest) = decoded c (utf8_decode rest)"
  using assms by simp

lemma utf8_decode_2:
  assumes "unat b0 = 0xC0 + h" and "h < 32" and "unat b1 = 0x80 + l" and "l < 64"
    and "0x80 \<le> h * 64 + l"
  shows "utf8_decode (b0 # b1 # rest) = decoded (h * 64 + l) (utf8_decode rest)"
  using assms by (simp add: is_cont_def cont_def Let_def)

lemma utf8_decode_3:
  assumes "unat b0 = 0xE0 + h" and "h < 16" and "unat b1 = 0x80 + m" and "m < 64"
    and "unat b2 = 0x80 + l" and "l < 64"
    and "0x800 \<le> h * 4096 + m * 64 + l"
    and "\<not> (0xD800 \<le> h * 4096 + m * 64 + l \<and> h * 4096 + m * 64 + l \<le> 0xDFFF)"
  shows "utf8_decode (b0 # b1 # b2 # rest) = decoded (h * 4096 + m * 64 + l) (utf8_decode rest)"
  using assms by (simp add: is_cont_def cont_def Let_def)

lemma utf8_decode_4:
  assumes "unat b0 = 0xF0 + h" and "h < 8" and "unat b1 = 0x80 + m" and "m < 64"
    and "unat b2 = 0x80 + k" and "k < 64" and "unat b3 = 0x80 + l" and "l < 64"
    and "0x10000 \<le> h * 262144 + m * 4096 + k * 64 + l"
    and "h * 262144 + m * 4096 + k * 64 + l < 0x110000"
  shows "utf8_decode (b0 # b1 # b2 # b3 # rest)
         = decoded (h * 262144 + m * 4096 + k * 64 + l) (utf8_decode rest)"
  using assms by (simp add: is_cont_def cont_def Let_def)

text \<open>A code point is the sum of its six-bit groups.\<close>

lemma div_4096: "(c::nat) div 4096 = c div 64 div 64"
  by (simp add: div_mult2_eq [symmetric])

lemma div_262144: "(c::nat) div 262144 = c div 4096 div 64"
  by (simp add: div_mult2_eq [symmetric])

lemma combine3: "(q::nat) = 64 * q' + r' \<Longrightarrow> c = 64 * q + r \<Longrightarrow> q' * 4096 + r' * 64 + r = c"
  by simp

lemma combine4:
  "(q::nat) = 64 * q' + r' \<Longrightarrow> q * 4096 + m * 64 + r = c \<Longrightarrow>
   q' * 262144 + r' * 4096 + m * 64 + r = c"
  by simp

lemma split3: "(c::nat) div 4096 * 4096 + c div 64 mod 64 * 64 + c mod 64 = c"
proof -
  have a: "c div 64 = 64 * (c div 64 div 64) + c div 64 mod 64" by simp
  have b: "c = 64 * (c div 64) + c mod 64" by simp
  show ?thesis unfolding div_4096 by (rule combine3 [OF a b])
qed

lemma split4:
  "(c::nat) div 262144 * 262144 + c div 4096 mod 64 * 4096 + c div 64 mod 64 * 64 + c mod 64 = c"
proof -
  have a: "c div 4096 = 64 * (c div 4096 div 64) + c div 4096 mod 64" by simp
  show ?thesis unfolding div_262144 by (rule combine4 [OF a split3])
qed

text \<open>Decoding the bytes of one encoded code point gives the code point back.\<close>

lemma decode_encode_char:
  assumes enc: "utf8_encode_char c = Inr b"
  shows "utf8_decode (b @ rest) = decoded c (utf8_decode rest)"
proof -
  consider (one) "c < 0x80"
    | (two) "0x80 \<le> c" "c < 0x800"
    | (three) "0x800 \<le> c" "c < 0x10000" "\<not> (0xD800 \<le> c \<and> c \<le> 0xDFFF)"
    | (surrogate) "0xD800 \<le> c" "c \<le> 0xDFFF"
    | (four) "0x10000 \<le> c" "c < 0x110000"
    | (beyond) "0x110000 \<le> c"
    by linarith
  then show ?thesis
  proof cases
    case one
    with enc have b: "b = [of_nat c]"
      by (simp add: utf8_encode_char_def)
    from one have "unat (of_nat c :: byte) = c"
      by (intro unat_byte) simp
    from utf8_decode_1 [OF this one] show ?thesis
      unfolding b by (simp only: append_Cons append_Nil)
  next
    case two
    with enc have b: "b = [of_nat (0xC0 + c div 64), of_nat (0x80 + c mod 64)]"
      by (simp add: utf8_encode_char_def)
    from two have hi: "c div 64 < 32" by simp
    then have b0: "unat (of_nat (0xC0 + c div 64) :: byte) = 0xC0 + c div 64"
      by (intro unat_byte) simp
    have lo: "c mod 64 < 64" by simp
    have b1: "unat (of_nat (0x80 + c mod 64) :: byte) = 0x80 + c mod 64"
      by (intro unat_byte) simp
    have val: "c div 64 * 64 + c mod 64 = c" by simp
    from two have "0x80 \<le> c div 64 * 64 + c mod 64"
      unfolding val by simp
    from utf8_decode_2 [OF b0 hi b1 lo this] show ?thesis
      unfolding b val by (simp only: append_Cons append_Nil)
  next
    case three
    with enc have b: "b = [of_nat (0xE0 + c div 4096), of_nat (0x80 + c div 64 mod 64),
                          of_nat (0x80 + c mod 64)]"
      by (simp add: utf8_encode_char_def)
    from three have hi: "c div 4096 < 16" by simp
    then have b0: "unat (of_nat (0xE0 + c div 4096) :: byte) = 0xE0 + c div 4096"
      by (intro unat_byte) simp
    have mi: "c div 64 mod 64 < 64" by simp
    have b1: "unat (of_nat (0x80 + c div 64 mod 64) :: byte) = 0x80 + c div 64 mod 64"
      by (intro unat_byte) simp
    have lo: "c mod 64 < 64" by simp
    have b2: "unat (of_nat (0x80 + c mod 64) :: byte) = 0x80 + c mod 64"
      by (intro unat_byte) simp
    have val: "c div 4096 * 4096 + c div 64 mod 64 * 64 + c mod 64 = c"
      by (rule split3)
    from three have ge: "0x800 \<le> c div 4096 * 4096 + c div 64 mod 64 * 64 + c mod 64"
      unfolding val by simp
    from three have ns: "\<not> (0xD800 \<le> c div 4096 * 4096 + c div 64 mod 64 * 64 + c mod 64 \<and>
                           c div 4096 * 4096 + c div 64 mod 64 * 64 + c mod 64 \<le> 0xDFFF)"
      unfolding val by simp
    from utf8_decode_3 [OF b0 hi b1 mi b2 lo ge ns] show ?thesis
      unfolding b val by (simp only: append_Cons append_Nil)
  next
    case surrogate
    with enc show ?thesis
      by (simp add: utf8_encode_char_def)
  next
    case four
    with enc have b: "b = [of_nat (0xF0 + c div 262144), of_nat (0x80 + c div 4096 mod 64),
                          of_nat (0x80 + c div 64 mod 64), of_nat (0x80 + c mod 64)]"
      by (simp add: utf8_encode_char_def)
    from four have hi: "c div 262144 < 8" by simp
    then have b0: "unat (of_nat (0xF0 + c div 262144) :: byte) = 0xF0 + c div 262144"
      by (intro unat_byte) simp
    have mi: "c div 4096 mod 64 < 64" by simp
    have b1: "unat (of_nat (0x80 + c div 4096 mod 64) :: byte) = 0x80 + c div 4096 mod 64"
      by (intro unat_byte) simp
    have ki: "c div 64 mod 64 < 64" by simp
    have b2: "unat (of_nat (0x80 + c div 64 mod 64) :: byte) = 0x80 + c div 64 mod 64"
      by (intro unat_byte) simp
    have lo: "c mod 64 < 64" by simp
    have b3: "unat (of_nat (0x80 + c mod 64) :: byte) = 0x80 + c mod 64"
      by (intro unat_byte) simp
    have val: "c div 262144 * 262144 + c div 4096 mod 64 * 4096 + c div 64 mod 64 * 64 + c mod 64 = c"
      by (rule split4)
    from four have ge: "0x10000 \<le> c div 262144 * 262144 + c div 4096 mod 64 * 4096
                                   + c div 64 mod 64 * 64 + c mod 64"
      unfolding val by simp
    from four have lt: "c div 262144 * 262144 + c div 4096 mod 64 * 4096
                          + c div 64 mod 64 * 64 + c mod 64 < 0x110000"
      unfolding val by simp
    from utf8_decode_4 [OF b0 hi b1 mi b2 ki b3 lo ge lt] show ?thesis
      unfolding b val by (simp only: append_Cons append_Nil)
  next
    case beyond
    with enc show ?thesis
      by (simp add: utf8_encode_char_def)
  qed
qed

lemma utf8_decode_encode: "utf8_encode s = Inr bs \<Longrightarrow> utf8_decode bs = Inr s"
proof (induction s arbitrary: bs)
  case Nil
  then show ?case by simp
next
  case (Cons c s)
  from Cons.prems obtain b bs' where b: "utf8_encode_char c = Inr b"
    and bs': "utf8_encode s = Inr bs'" and bs: "bs = b @ bs'"
    by (auto split: sum.splits)
  from decode_encode_char [OF b, of bs'] Cons.IH [OF bs'] show ?case
    by (simp add: bs decoded_def del: utf8_decode.simps)
qed

section \<open>Decoding what \<open>dump\<close> wrote\<close>

lemma calcsize_value_fmt_of: "calcsize (value_fmt_of m) = value_size_of m"
  by (simp add: value_fmt_of_def value_size_of_def)

text \<open>One pass of the loop of \<open>load\<close> over a record written by the loop of \<open>dump\<close>.\<close>

lemma load_loop_record:
  assumes key: "utf8_encode key = Inr key_bytes"
    and len: "pack H (int (length key_bytes)) = Inr len_bytes"
    and cnt: "pack f (int (length vals)) = Inr count_bytes"
    and vs: "pack_many f vals = Inr value_bytes"
  shows "load_loop f (calcsize f) (len_bytes @ key_bytes @ count_bytes @ value_bytes @ rest)
           (int (length (len_bytes @ key_bytes @ count_bytes @ value_bytes @ rest))) index
         = load_loop f (calcsize f) rest (int (length rest)) (AList.update key vals index)"
proof -
  have l1: "length len_bytes = 2"
    using pack_length [OF len] by simp
  have l3: "length count_bytes = calcsize f"
    by (rule pack_length [OF cnt])
  have l4: "length value_bytes = length vals * calcsize f"
    by (rule pack_many_length [OF vs])
  have u1: "unpack H len_bytes = Inr (int (length key_bytes))"
    by (rule unpack_pack [OF len])
  have d: "utf8_decode key_bytes = Inr key"
    by (rule utf8_decode_encode [OF key])
  have u3: "unpack f count_bytes = Inr (int (length vals))"
    by (rule unpack_pack [OF cnt])
  have u4: "unpack_many f (length vals) value_bytes = Inr vals"
    by (rule unpack_many_pack_many [OF vs])
  have fs: "0 < int (length (len_bytes @ key_bytes @ count_bytes @ value_bytes @ rest))"
    using l1 by simp
  show ?thesis
    apply (subst load_loop.simps)
    apply (simp only: fs if_True)
    apply (simp add: l1 l3 l4 u1 d u3 u4 del: utf8_decode.simps)
    done
qed

lemma load_loop_end: "load_loop f w [] 0 index = Inr index"
  by (subst load_loop.simps) simp

lemma load_loop_dump_items:
  "dump_items f items = Inr body \<Longrightarrow>
   load_loop f (calcsize f) (body @ rest) (int (length (body @ rest))) index
   = load_loop f (calcsize f) rest (int (length rest))
       (foldl (\<lambda>acc p. AList.update (fst p) (snd p) acc) index items)"
proof (induction items arbitrary: body index)
  case Nil
  then show ?case by simp
next
  case (Cons item items)
  obtain key vals where item: "item = (key, vals)" by (cases item)
  from Cons.prems obtain key_bytes len_bytes count_bytes value_bytes body'
    where key: "utf8_encode key = Inr key_bytes"
      and len: "pack H (int (length key_bytes)) = Inr len_bytes"
      and cnt: "pack f (int (length vals)) = Inr count_bytes"
      and vs: "pack_many f vals = Inr value_bytes"
      and body': "dump_items f items = Inr body'"
      and body: "body = len_bytes @ key_bytes @ count_bytes @ value_bytes @ body'"
    unfolding item by (auto split: sum.splits)
  have "load_loop f (calcsize f) (body @ rest) (int (length (body @ rest))) index
        = load_loop f (calcsize f) (body' @ rest) (int (length (body' @ rest)))
            (AList.update key vals index)"
    using load_loop_record [OF key len cnt vs, of "body' @ rest" index]
    by (simp add: body)
  also have "\<dots> = load_loop f (calcsize f) rest (int (length rest))
       (foldl (\<lambda>acc p. AList.update (fst p) (snd p) acc) (AList.update key vals index) items)"
    by (rule Cons.IH [OF body'])
  finally show ?case by (simp add: item)
qed

text \<open>Assigning the items of a dictionary in order to an empty dictionary rebuilds it.\<close>

lemma update_new_key: "k \<notin> fst ` set al \<Longrightarrow> AList.update k v al = al @ [(k, v)]"
  by (induction al) auto

lemma foldl_update_distinct:
  "distinct (map fst items) \<Longrightarrow> fst ` set items \<inter> fst ` set acc = {} \<Longrightarrow>
   foldl (\<lambda>acc p. AList.update (fst p) (snd p) acc) acc items = acc @ items"
proof (induction items arbitrary: acc)
  case Nil
  then show ?case by simp
next
  case (Cons p items)
  from Cons.prems have new: "fst p \<notin> fst ` set acc" by auto
  from Cons.prems have "distinct (map fst items)"
    and "fst ` set items \<inter> fst ` set (acc @ [(fst p, snd p)]) = {}"
    by auto
  from Cons.IH [OF this] show ?case
    by (simp add: update_new_key [OF new])
qed

lemma load_dump:
  assumes "dump bo index = Inr bs" and "distinct (map fst index)"
  shows "load bo bs = Inr index"
proof -
  from assms(1) obtain ms max_value header body
    where "max_each (map snd index) = Inr ms" and "py_max ms = Inr max_value"
      and header: "pack_native bo max_value = Inr header"
      and body: "dump_items (value_fmt_of max_value) index = Inr body"
      and bs: "bs = header @ body"
    by (auto simp: dump_def split: sum.splits)
  have h4: "length header = 4"
    by (rule pack_native_length [OF header])
  have hv: "unpack_native bo header = Inr max_value"
    by (rule unpack_native_pack_native [OF header])
  have "load bo bs = load_loop (value_fmt_of max_value) (calcsize (value_fmt_of max_value))
                       (body @ []) (int (length (body @ []))) []"
    by (simp add: load_def bs h4 hv calcsize_value_fmt_of)
  also have "\<dots> = load_loop (value_fmt_of max_value) (calcsize (value_fmt_of max_value)) [] (int (length ([] :: pybytes)))
                      (foldl (\<lambda>acc p. AList.update (fst p) (snd p) acc) [] index)"
    by (rule load_loop_dump_items [OF body])
  also have "\<dots> = Inr (foldl (\<lambda>acc p. AList.update (fst p) (snd p) acc) [] index)"
    by (simp add: load_loop_end)
  also have "foldl (\<lambda>acc p. AList.update (fst p) (snd p) acc) [] index = index"
    using foldl_update_distinct [OF assms(2), of "[]"] by simp
  finally show ?thesis .
qed

section \<open>When \<open>dump\<close> succeeds\<close>

lemma py_max_Inr: "py_max xs = Inr m \<longleftrightarrow> xs \<noteq> [] \<and> m = Max (set xs)"
proof (cases xs)
  case Nil
  then show ?thesis by simp
next
  case (Cons x xs')
  have "fold max xs' x = Max (set (x # xs'))"
    by (rule Max.set_eq_fold [symmetric])
  with Cons show ?thesis by auto
qed

lemma py_max_Inl: "py_max xs = Inl e \<longleftrightarrow> xs = [] \<and> e = ValueError"
  by (cases xs) auto

lemma max_each_Inr:
  "max_each vs = Inr ms \<longleftrightarrow> (\<forall>v \<in> set vs. v \<noteq> []) \<and> ms = map (\<lambda>v. Max (set v)) vs"
proof (induction vs arbitrary: ms)
  case Nil
  then show ?case by auto
next
  case (Cons v vs)
  show ?case
  proof (cases "py_max v")
    case (Inl e)
    then show ?thesis by (auto simp: py_max_Inl)
  next
    case (Inr m)
    then have v: "v \<noteq> []" "m = Max (set v)" by (simp_all add: py_max_Inr)
    show ?thesis
    proof (cases "max_each vs")
      case (Inl e)
      with Cons.IH Inr show ?thesis by auto
    next
      case r: (Inr ms')
      with Cons.IH [of ms'] Inr v show ?thesis by auto
    qed
  qed
qed

lemma max_each_Inl: "max_each vs = Inl e \<Longrightarrow> e = ValueError"
  by (induction vs) (auto simp: py_max_Inl split: sum.splits)

text \<open>The maximum that \<open>dump\<close> computes is the largest id of the index.\<close>

lemma Max_of_Max:
  assumes "vs \<noteq> []" and "\<forall>v \<in> set vs. v \<noteq> []"
  shows "Max (set (map (\<lambda>v. Max (set v)) vs)) = Max (\<Union>v \<in> set vs. set v)"
proof (rule sym, rule Max_eqI)
  show "finite (\<Union>v \<in> set vs. set v)" by simp
next
  fix x assume "x \<in> (\<Union>v \<in> set vs. set v)"
  then obtain v where v: "v \<in> set vs" "x \<in> set v" by blast
  then have "x \<le> Max (set v)" by simp
  also from v(1) have "Max (set v) \<le> Max (set (map (\<lambda>v. Max (set v)) vs))"
    by (intro Max_ge) auto
  finally show "x \<le> Max (set (map (\<lambda>v. Max (set v)) vs))" .
next
  from assms(1) have "Max (set (map (\<lambda>v. Max (set v)) vs)) \<in> set (map (\<lambda>v. Max (set v)) vs)"
    by (intro Max_in) auto
  then obtain v where v: "v \<in> set vs"
    and eq: "Max (set (map (\<lambda>v. Max (set v)) vs)) = Max (set v)" by auto
  from assms(2) v have "Max (set v) \<in> set v"
    by (intro Max_in) auto
  with v eq show "Max (set (map (\<lambda>v. Max (set v)) vs)) \<in> (\<Union>v \<in> set vs. set v)"
    by auto
qed

lemma dump_Inr_iff:
  "dump bo index = Inr bs \<longleftrightarrow>
     index \<noteq> [] \<and> (\<forall>v \<in> snd ` set index. v \<noteq> []) \<and>
     (\<exists>header body. pack_native bo (max_id index) = Inr header \<and>
        dump_items (value_fmt_of (max_id index)) index = Inr body \<and> bs = header @ body)"
proof (cases "index \<noteq> [] \<and> (\<forall>v \<in> snd ` set index. v \<noteq> [])")
  case True
  then have each: "max_each (map snd index) = Inr (map (\<lambda>v. Max (set v)) (map snd index))"
    by (simp add: max_each_Inr)
  from True have "Max (set (map (\<lambda>v. Max (set v)) (map snd index))) = max_id index"
    unfolding max_id_def using Max_of_Max [of "map snd index"] by simp
  with True have "py_max (map (\<lambda>v. Max (set v)) (map snd index)) = Inr (max_id index)"
    by (simp add: py_max_Inr)
  with each True show ?thesis
    by (auto simp: dump_def split: sum.splits)
next
  case False
  have "dump bo index \<noteq> Inr bs"
  proof
    assume "dump bo index = Inr bs"
    then obtain ms m where "max_each (map snd index) = Inr ms" "py_max ms = Inr m"
      by (auto simp: dump_def split: sum.splits)
    then have "(\<forall>v \<in> snd ` set index. v \<noteq> []) \<and> index \<noteq> []"
      by (auto simp: max_each_Inr py_max_Inr)
    with False show False by simp
  qed
  with False show ?thesis by blast
qed

text \<open>
  Claim C6. Encoding an index with no terms raises the \<open>ValueError\<close> of \<open>max\<close> on an
  empty sequence (the condition the specification calls \<open>EmptyIndexError\<close>), and whenever
  encoding succeeds the index has at least one term and every posting list is non-empty.
\<close>

theorem dump_empty_index:
  "dump bo [] = Inl ValueError \<and>
   (dump bo index = Inr bs \<longrightarrow> index \<noteq> [] \<and> (\<forall>(k, v) \<in> set index. v \<noteq> []))"
proof
  show "dump bo [] = Inl ValueError"
    by (simp add: dump_def)
  show "dump bo index = Inr bs \<longrightarrow> index \<noteq> [] \<and> (\<forall>(k, v) \<in> set index. v \<noteq> [])"
    by (auto simp: dump_Inr_iff)
qed

text \<open>Rules that evaluate \<open>dump\<close> and \<open>load\<close> on concrete arguments.\<close>

lemmas dump_eval =
  dump_def value_fmt_of_def pack_native_def native_def pack_def be_bytes_2 be_bytes_4
  str_def utf8_encode_char_def

theorem dump_empty_index_witness:
  "dump LittleEndian [(str ''ab'', [1, 2]), (str ''c'', [513])]
     = Inr [1, 2, 0, 0, 0, 2, 97, 98, 0, 2, 0, 1, 0, 2, 0, 1, 99, 0, 1, 2, 1] \<and>
   [(str ''ab'', [1, 2 :: int]), (str ''c'', [513])] \<noteq> [] \<and>
   list_all (\<lambda>(k, v). v \<noteq> []) [(str ''ab'', [1, 2 :: int]), (str ''c'', [513])]"
proof -
  have d: "dump LittleEndian [(str ''ab'', [1, 2]), (str ''c'', [513])]
           = Inr [1, 2, 0, 0, 0, 2, 97, 98, 0, 2, 0, 1, 0, 2, 0, 1, 99, 0, 1, 2, 1]"
    by (simp add: dump_eval)
  from dump_empty_index [of LittleEndian "[(str ''ab'', [1, 2]), (str ''c'', [513])]"
      "[1, 2, 0, 0, 0, 2, 97, 98, 0, 2, 0, 1, 0, 2, 0, 1, 99, 0, 1, 2, 1]"] d
  have "[(str ''ab'', [1, 2 :: int]), (str ''c'', [513])] \<noteq> [] \<and>
        (\<forall>(k, v) \<in> set [(str ''ab'', [1, 2 :: int]), (str ''c'', [513])]. v \<noteq> [])"
    by blast
  with d show ?thesis
    unfolding list_all_iff by blast
qed
section \<open>Round trip\<close>

lemma pack_ok: "0 \<le> n \<Longrightarrow> n < 256 ^ calcsize f \<Longrightarrow> \<exists>bs. pack f n = Inr bs"
  by (simp add: pack_def)

lemma pack_many_ok:
  "\<forall>x \<in> set xs. 0 \<le> x \<and> x < 256 ^ calcsize f \<Longrightarrow> \<exists>bs. pack_many f xs = Inr bs"
proof (induction xs)
  case Nil
  then show ?case by simp
next
  case (Cons x xs)
  then obtain b bs where "pack f x = Inr b" "pack_many f xs = Inr bs"
    using pack_ok [of x f] by auto
  then show ?case by simp
qed

lemma dump_items_ok:
  assumes "\<forall>(k, v) \<in> set items.
             (\<exists>kb. utf8_encode k = Inr kb \<and> length kb < 65536) \<and>
             int (length v) < 256 ^ calcsize f \<and> (\<forall>x \<in> set v. 0 \<le> x \<and> x < 256 ^ calcsize f)"
  shows "\<exists>body. dump_items f items = Inr body"
  using assms
proof (induction items)
  case Nil
  then show ?case by simp
next
  case (Cons item items)
  obtain k v where item: "item = (k, v)" by (cases item)
  from Cons.prems item obtain kb where kb: "utf8_encode k = Inr kb" "length kb < 65536"
    and lv: "int (length v) < 256 ^ calcsize f"
    and xs: "\<forall>x \<in> set v. 0 \<le> x \<and> x < 256 ^ calcsize f"
    by auto
  from kb(2) obtain a where a: "pack H (int (length kb)) = Inr a"
    using pack_ok [of "int (length kb)" H] by auto
  from lv obtain c where c: "pack f (int (length v)) = Inr c"
    using pack_ok [of "int (length v)" f] by auto
  from pack_many_ok [OF xs] obtain d where d: "pack_many f v = Inr d" ..
  from Cons obtain rest where rest: "dump_items f items = Inr rest" by auto
  show ?case
    by (simp add: item kb(1) a c d rest)
qed

lemma max_id_ge: "v \<in> snd ` set index \<Longrightarrow> x \<in> set v \<Longrightarrow> x \<le> max_id index"
  unfolding max_id_def by (intro Max_ge) auto

lemma max_id_in:
  assumes "index \<noteq> []" and "\<forall>v \<in> snd ` set index. v \<noteq> []"
  shows "\<exists>v \<in> snd ` set index. max_id index \<in> set v"
proof -
  from assms have "(\<Union>v \<in> snd ` set index. set v) \<noteq> {}"
    by (cases index) auto
  then have "max_id index \<in> (\<Union>v \<in> snd ` set index. set v)"
    unfolding max_id_def by (intro Max_in) auto
  then show ?thesis by blast
qed

lemma dump_ok:
  assumes ne: "index \<noteq> []"
    and items: "\<forall>(k, v) \<in> set index.
        v \<noteq> [] \<and> (\<forall>x \<in> set v. 0 \<le> x \<and> x < 2 ^ 32) \<and>
        int (length v) < 256 ^ value_size_of (max_id index) \<and>
        (\<exists>kb. utf8_encode k = Inr kb \<and> length kb < 65536)"
  shows "\<exists>bs. dump bo index = Inr bs"
proof -
  from items have nonempty: "\<forall>v \<in> snd ` set index. v \<noteq> []" by auto
  from items have range: "\<And>v x. v \<in> snd ` set index \<Longrightarrow> x \<in> set v \<Longrightarrow> 0 \<le> x \<and> x < 2 ^ 32"
    by fastforce
  from max_id_in [OF ne nonempty] range have m: "0 \<le> max_id index" "max_id index < 2 ^ 32"
    by blast+
  then obtain bs where bs: "pack I (max_id index) = Inr bs"
    using pack_ok [of "max_id index" I] by auto
  then have header: "pack_native bo (max_id index) = Inr (native bo bs)"
    by (simp add: pack_native_def)
  have fits: "x < 256 ^ calcsize (value_fmt_of (max_id index))"
    if "v \<in> snd ` set index" "x \<in> set v" for v x
  proof (cases "max_id index < 65535")
    case True
    with max_id_ge [OF that] show ?thesis by (simp add: value_fmt_of_def)
  next
    case False
    with range [OF that] show ?thesis by (simp add: value_fmt_of_def)
  qed
  have "\<forall>(k, v) \<in> set index.
          (\<exists>kb. utf8_encode k = Inr kb \<and> length kb < 65536) \<and>
          int (length v) < 256 ^ calcsize (value_fmt_of (max_id index)) \<and>
          (\<forall>x \<in> set v. 0 \<le> x \<and> x < 256 ^ calcsize (value_fmt_of (max_id index)))"
  proof (clarify, intro conjI ballI)
    fix k v assume kv: "(k, v) \<in> set index"
    then have v: "v \<in> snd ` set index" by force
    from items kv show "\<exists>kb. utf8_encode k = Inr kb \<and> length kb < 65536" by auto
    from items kv show "int (length v) < 256 ^ calcsize (value_fmt_of (max_id index))"
      by (auto simp: calcsize_value_fmt_of)
    fix x assume x: "x \<in> set v"
    from range [OF v x] show "0 \<le> x" by simp
    from fits [OF v x] show "x < 256 ^ calcsize (value_fmt_of (max_id index))" .
  qed
  from dump_items_ok [OF this] obtain body
    where "dump_items (value_fmt_of (max_id index)) index = Inr body" ..
  with header ne nonempty show ?thesis
    by (auto simp: dump_Inr_iff)
qed

text \<open>
  Claim C1 says that decoding the encoding of any index with at least one term and no
  empty posting list gives the index back. Encoding such an index can fail: the header
  and the value fields hold at most 32 bits, and a document id of \<open>2 ^ 32\<close> makes
  \<open>struct.pack\<close> raise, on either byte order.
\<close>

theorem dump_large_id_counterexample:
  "dump LittleEndian [(str ''a'', [4294967296])] = Inl StructError \<and>
   dump BigEndian [(str ''a'', [4294967296])] = Inl StructError"
  by (simp add: dump_eval)

text \<open>
  Claim C1, amended with the limits of the format. Let the index be a mapping (distinct
  terms) with at least one term, in which every posting list is non-empty, holds only ids
  from \<open>0\<close> to \<open>2 ^ 32 - 1\<close> and has a length that fits the value width (2 bytes when
  the largest id is below 65535, else 4), and every term has a UTF-8 encoding of at most
  65535 bytes. Then encoding succeeds, decoding the bytes succeeds, and the decoded index
  has the same terms, each with the same set of postings.
\<close>

theorem dump_load_roundtrip:
  assumes "index \<noteq> []" and "distinct (map fst index)"
    and "\<forall>(k, v) \<in> set index.
        v \<noteq> [] \<and> (\<forall>x \<in> set v. 0 \<le> x \<and> x < 2 ^ 32) \<and>
        int (length v) < 256 ^ value_size_of (max_id index) \<and>
        (\<exists>kb. utf8_encode k = Inr kb \<and> length kb < 65536)"
  shows "\<exists>bs index'. dump bo index = Inr bs \<and> load bo bs = Inr index' \<and>
           dom (map_of index') = dom (map_of index) \<and>
           (\<forall>k v. map_of index k = Some v \<longrightarrow>
                  (\<exists>v'. map_of index' k = Some v' \<and> set v' = set v))"
proof -
  from dump_ok [OF assms(1,3)] obtain bs where bs: "dump bo index = Inr bs" ..
  from load_dump [OF bs assms(2)] have "load bo bs = Inr index" .
  with bs show ?thesis by blast
qed

theorem dump_load_roundtrip_witness:
  "[(str ''ab'', [1, 2 :: int]), (str ''c'', [513])] \<noteq> [] \<and>
   distinct (map fst [(str ''ab'', [1, 2 :: int]), (str ''c'', [513])]) \<and>
   (\<exists>bs index'. dump LittleEndian [(str ''ab'', [1, 2]), (str ''c'', [513])] = Inr bs \<and>
      load LittleEndian bs = Inr index' \<and>
      dom (map_of index') = dom (map_of [(str ''ab'', [1, 2 :: int]), (str ''c'', [513])]) \<and>
      (\<exists>v'. map_of index' (str ''ab'') = Some v' \<and> set v' = {1, 2}))"
proof -
  let ?index = "[(str ''ab'', [1, 2 :: int]), (str ''c'', [513])]"
  have ne: "?index \<noteq> []" by simp
  have dist: "distinct (map fst ?index)" by (simp add: str_def)
  have m: "max_id ?index = 513" by (simp add: max_id_def)
  have items: "\<forall>(k, v) \<in> set ?index.
        v \<noteq> [] \<and> (\<forall>x \<in> set v. 0 \<le> x \<and> x < 2 ^ 32) \<and>
        int (length v) < 256 ^ value_size_of (max_id ?index) \<and>
        (\<exists>kb. utf8_encode k = Inr kb \<and> length kb < 65536)"
    unfolding m by (simp add: value_size_of_def str_def utf8_encode_char_def)
  have ab: "map_of ?index (str ''ab'') = Some [1, 2]" by (simp add: str_def)
  from dump_load_roundtrip [OF ne dist items, of LittleEndian] obtain bs index'
    where d: "dump LittleEndian ?index = Inr bs" and l: "load LittleEndian bs = Inr index'"
      and keys: "dom (map_of index') = dom (map_of ?index)"
      and sets: "\<forall>k v. map_of ?index k = Some v \<longrightarrow>
                  (\<exists>v'. map_of index' k = Some v' \<and> set v' = set v)"
    by blast
  from sets ab have "\<exists>v'. map_of index' (str ''ab'') = Some v' \<and> set v' = set [1, 2]"
    by blast
  then have "\<exists>v'. map_of index' (str ''ab'') = Some v' \<and> set v' = {1, 2}"
    by simp
  with d l keys have "\<exists>bs index'. dump LittleEndian ?index = Inr bs \<and>
      load LittleEndian bs = Inr index' \<and>
      dom (map_of index') = dom (map_of ?index) \<and>
      (\<exists>v'. map_of index' (str ''ab'') = Some v' \<and> set v' = {1, 2})"
    by blast
  with ne dist show ?thesis by (intro conjI)
qed

section \<open>The width of the value fields\<close>

lemma pack_bytes: "pack f n = Inr bs \<Longrightarrow> bs = be_bytes (calcsize f) (nat n)"
  by (auto simp: pack_def split: if_splits)

lemma pack_many_bytes:
  "pack_many f xs = Inr bs \<Longrightarrow> bs = concat (map (\<lambda>x. be_bytes (calcsize f) (nat x)) xs)"
proof (induction xs arbitrary: bs)
  case Nil
  then show ?case by simp
next
  case (Cons x xs)
  then show ?case
    by (auto dest: pack_bytes split: sum.splits)
qed

lemma pack_native_bytes:
  "pack_native bo n = Inr h \<Longrightarrow> h = native bo (be_bytes 4 (nat n))"
  by (auto simp: pack_native_def dest: pack_bytes split: sum.splits)

lemma dump_items_layout:
  "dump_items f items = Inr body \<Longrightarrow> body = concat (map (spec_record (calcsize f)) items)"
proof (induction items arbitrary: body)
  case Nil
  then show ?case by simp
next
  case (Cons item items)
  obtain key vals where item: "item = (key, vals)" by (cases item)
  from Cons.prems obtain key_bytes len_bytes count_bytes value_bytes body'
    where key: "utf8_encode key = Inr key_bytes"
      and len: "pack H (int (length key_bytes)) = Inr len_bytes"
      and cnt: "pack f (int (length vals)) = Inr count_bytes"
      and vs: "pack_many f vals = Inr value_bytes"
      and body': "dump_items f items = Inr body'"
      and body: "body = len_bytes @ key_bytes @ count_bytes @ value_bytes @ body'"
    unfolding item by (auto split: sum.splits)
  from key have kb: "utf8_bytes key = key_bytes"
    by (simp add: utf8_bytes_def)
  from pack_bytes [OF len] have l: "len_bytes = be_bytes 2 (length key_bytes)" by simp
  from pack_bytes [OF cnt] have c: "count_bytes = be_bytes (calcsize f) (length vals)" by simp
  note v = pack_many_bytes [OF vs]
  from Cons.IH [OF body'] show ?case
    by (simp add: item body spec_record_def kb l c v)
qed

text \<open>
  Claim C3. When \<open>dump\<close> succeeds, the bytes it wrote are the layout of the specification
  with the value width chosen by the strict test \<open>max_id < 65535\<close>: width 2 when the
  largest id is 65534, width 4 when it is 65535 or more. The header is four bytes whatever
  the width. \<open>load\<close> reads the largest id back from these four bytes and runs its loop
  with the format and the size given by the same test, which is the width \<open>dump\<close> used.
\<close>

theorem dump_width_boundary:
  assumes "dump bo index = Inr bs"
  shows "bs = spec_file bo (if max_id index < 65535 then 2 else 4) index \<and>
         (max_id index = 65534 \<longrightarrow> bs = spec_file bo 2 index) \<and>
         (65535 \<le> max_id index \<longrightarrow> bs = spec_file bo 4 index) \<and>
         length (native bo (be_bytes 4 (nat (max_id index)))) = 4 \<and>
         unpack_native bo (take 4 bs) = Inr (max_id index) \<and>
         load bo bs = load_loop (value_fmt_of (max_id index))
                        (if max_id index < 65535 then 2 else 4) (drop 4 bs) (int (length bs) - 4) [] \<and>
         calcsize (value_fmt_of (max_id index)) = (if max_id index < 65535 then 2 else 4)"
proof -
  from assms obtain header body
    where header: "pack_native bo (max_id index) = Inr header"
      and body: "dump_items (value_fmt_of (max_id index)) index = Inr body"
      and bs: "bs = header @ body"
    by (auto simp: dump_Inr_iff)
  have w: "calcsize (value_fmt_of (max_id index)) = (if max_id index < 65535 then 2 else 4)"
    by (simp add: value_fmt_of_def)
  have h: "header = native bo (be_bytes 4 (nat (max_id index)))"
    by (rule pack_native_bytes [OF header])
  have h4: "length header = 4"
    by (rule pack_native_length [OF header])
  have layout: "bs = spec_file bo (if max_id index < 65535 then 2 else 4) index"
    using dump_items_layout [OF body] by (simp add: bs spec_file_def h w)
  have hv: "unpack_native bo (take 4 bs) = Inr (max_id index)"
    using unpack_native_pack_native [OF header] by (simp add: bs h4)
  have ld: "load bo bs = load_loop (value_fmt_of (max_id index))
              (if max_id index < 65535 then 2 else 4) (drop 4 bs) (int (length bs) - 4) []"
    by (simp add: load_def hv value_size_of_def)
  from layout have "max_id index = 65534 \<longrightarrow> bs = spec_file bo 2 index"
    by simp
  moreover from layout have "65535 \<le> max_id index \<longrightarrow> bs = spec_file bo 4 index"
    by simp
  moreover from h h4 have "length (native bo (be_bytes 4 (nat (max_id index)))) = 4"
    by simp
  ultimately show ?thesis using layout hv ld w by (intro conjI)
qed

theorem dump_width_boundary_witness:
  "dump LittleEndian [(str ''a'', [65534])] = Inr [254, 255, 0, 0, 0, 1, 97, 0, 1, 255, 254] \<and>
   max_id [(str ''a'', [65534])] = 65534 \<and>
   [254, 255, 0, 0, 0, 1, 97, 0, 1, 255, 254] = spec_file LittleEndian 2 [(str ''a'', [65534])] \<and>
   dump LittleEndian [(str ''a'', [65535])]
     = Inr [255, 255, 0, 0, 0, 1, 97, 0, 0, 0, 1, 0, 0, 255, 255] \<and>
   65535 \<le> max_id [(str ''a'', [65535])] \<and>
   [255, 255, 0, 0, 0, 1, 97, 0, 0, 0, 1, 0, 0, 255, 255]
     = spec_file LittleEndian 4 [(str ''a'', [65535])]"
proof -
  have d1: "dump LittleEndian [(str ''a'', [65534])]
            = Inr [254, 255, 0, 0, 0, 1, 97, 0, 1, 255, 254]"
    by (simp add: dump_eval)
  have m1: "max_id [(str ''a'', [65534])] = 65534"
    by (simp add: max_id_def)
  have d2: "dump LittleEndian [(str ''a'', [65535])]
            = Inr [255, 255, 0, 0, 0, 1, 97, 0, 0, 0, 1, 0, 0, 255, 255]"
    by (simp add: dump_eval)
  have m2: "65535 \<le> max_id [(str ''a'', [65535])]"
    by (simp add: max_id_def)
  from dump_width_boundary [OF d1] m1
  have s1: "[254, 255, 0, 0, 0, 1, 97, 0, 1, 255, 254] = spec_file LittleEndian 2 [(str ''a'', [65534])]"
    by blast
  from dump_width_boundary [OF d2] m2
  have s2: "[255, 255, 0, 0, 0, 1, 97, 0, 0, 0, 1, 0, 0, 255, 255]
            = spec_file LittleEndian 4 [(str ''a'', [65535])]"
    by blast
  from d1 m1 s1 d2 m2 s2 show ?thesis by (intro conjI)
qed

section \<open>Decoding a truncated file\<close>

lemma decoded_error: "decoded c r = Inl e \<Longrightarrow> r = Inl e"
  by (auto simp: decoded_def split: sum.splits)

lemma utf8_decode_error: "utf8_decode bs = Inl e \<Longrightarrow> e = UnicodeDecodeError"
proof (induction bs arbitrary: e rule: length_induct)
  case (1 bs)
  show ?case
  proof (cases bs)
    case Nil
    with "1.prems" show ?thesis by simp
  next
    case (Cons b0 r0)
    have IH: "utf8_decode r = Inl e \<Longrightarrow> length r < length bs \<Longrightarrow> e = UnicodeDecodeError" for r
      using "1.IH" by blast
    from "1.prems" show ?thesis
      unfolding Cons
      by (auto simp: Let_def Cons split: if_splits list.splits dest!: decoded_error intro: IH)
  qed
qed

lemma unpack_be_bytes:
  "n < 256 ^ calcsize f \<Longrightarrow> unpack f (be_bytes (calcsize f) n) = Inr (int n)"
  by (simp add: unpack_def length_be_bytes be_value_be_bytes)

lemma calcsize_pos: "0 < calcsize f"
  by (cases f) simp_all

text \<open>
  The term length of a record exceeds the bytes that are left: the read of the term is
  short, so either the short term is not valid UTF-8, or the read of the count finds
  the end of the file.
\<close>

lemma load_loop_truncated_term:
  assumes L: "L < 65536" and short: "length tail < L"
  shows "load_loop f (calcsize f) (be_bytes 2 L @ tail) (int (length (be_bytes 2 L @ tail))) index
           = Inl StructError \<or>
         load_loop f (calcsize f) (be_bytes 2 L @ tail) (int (length (be_bytes 2 L @ tail))) index
           = Inl UnicodeDecodeError"
proof -
  have fs: "0 < int (length (be_bytes 2 L @ tail))"
    by (simp add: length_be_bytes)
  from L have u1: "unpack H (be_bytes 2 L) = Inr (int L)"
    using unpack_be_bytes [of L H] by simp
  have eof: "unpack f [] = Inl StructError"
    using calcsize_pos [of f] by (simp add: unpack_def)
  have step: "load_loop f (calcsize f) (be_bytes 2 L @ tail) (int (length (be_bytes 2 L @ tail))) index
        = (case utf8_decode tail of Inl e \<Rightarrow> Inl e | Inr key \<Rightarrow> Inl StructError)"
    apply (subst load_loop.simps)
    apply (simp only: fs if_True)
    using short apply (simp add: length_be_bytes u1 eof del: utf8_decode.simps split: sum.splits)
    done
  show ?thesis
    unfolding step by (auto split: sum.splits dest: utf8_decode_error)
qed

text \<open>
  The postings of a record exceed the bytes that are left: unless the term is not valid
  UTF-8, the read of the postings is short and \<open>struct.unpack\<close> rejects the buffer.
\<close>

lemma load_loop_truncated_postings:
  assumes kb: "length kb < 65536" and n: "n < 256 ^ calcsize f"
    and short: "length tail < n * calcsize f"
  shows "load_loop f (calcsize f) (be_bytes 2 (length kb) @ kb @ be_bytes (calcsize f) n @ tail)
           (int (length (be_bytes 2 (length kb) @ kb @ be_bytes (calcsize f) n @ tail))) index
           = Inl StructError \<or>
         load_loop f (calcsize f) (be_bytes 2 (length kb) @ kb @ be_bytes (calcsize f) n @ tail)
           (int (length (be_bytes 2 (length kb) @ kb @ be_bytes (calcsize f) n @ tail))) index
           = Inl UnicodeDecodeError"
proof -
  let ?fio = "be_bytes 2 (length kb) @ kb @ be_bytes (calcsize f) n @ tail"
  have fs: "0 < int (length ?fio)"
    by (simp add: length_be_bytes)
  from kb have u1: "unpack H (be_bytes 2 (length kb)) = Inr (int (length kb))"
    using unpack_be_bytes [of "length kb" H] by simp
  note u3 = unpack_be_bytes [OF n]
  from short have u4: "unpack_many f n tail = Inl StructError"
    by (simp add: unpack_many_def)
  have step: "load_loop f (calcsize f) ?fio (int (length ?fio)) index
        = (case utf8_decode kb of Inl e \<Rightarrow> Inl e | Inr key \<Rightarrow> Inl StructError)"
    apply (subst load_loop.simps)
    apply (simp only: fs if_True)
    using short apply (simp add: length_be_bytes u1 u3 u4 del: utf8_decode.simps split: sum.splits)
    done
  show ?thesis
    unfolding step by (auto split: sum.splits dest: utf8_decode_error)
qed

lemma chunks_numeral:
  "chunks w (numeral k) buf = take w buf # chunks w (pred_numeral k) (drop w buf)"
  by (simp add: numeral_eq_Suc)

lemmas load_eval =
  load_def load_loop.simps unpack_native_def native_def unpack_def unpack_many_def
  be_value_def value_fmt_of_def value_size_of_def decoded_def chunks_numeral is_cont_def cont_def

text \<open>
  Claim C8. Let a file consist of a four-byte header, zero or more complete records (as
  \<open>dump\<close> writes them for the width of the header) and a last record \<open>bad\<close> whose
  declared term length, or whose declared number of postings times the value width, is
  larger than the number of bytes that follow. Then \<open>load\<close> raises: \<open>struct.error\<close>,
  or \<open>UnicodeDecodeError\<close> when the bytes read for a term are not valid UTF-8 (both
  are the condition the specification calls \<open>CorruptIndexError\<close>). The result is the
  exception alone: no index, complete or partial, is returned.
\<close>

theorem load_truncated_record:
  assumes header: "unpack_native bo header = Inr m"
    and good: "dump_items (value_fmt_of m) records = Inr body"
    and bad: "(\<exists>L tail. bad = be_bytes 2 L @ tail \<and> L < 65536 \<and> length tail < L) \<or>
              (\<exists>kb n tail. bad = be_bytes 2 (length kb) @ kb @ be_bytes (value_size_of m) n @ tail \<and>
                  length kb < 65536 \<and> n < 256 ^ value_size_of m \<and>
                  length tail < n * value_size_of m)"
  shows "(load bo (header @ body @ bad) = Inl StructError \<or>
          load bo (header @ body @ bad) = Inl UnicodeDecodeError) \<and>
         (\<forall>index. load bo (header @ body @ bad) \<noteq> Inr index)"
proof -
  let ?f = "value_fmt_of m"
  from header have h4: "length header = 4"
    by (cases bo) (auto simp: unpack_native_def unpack_def native_def split: if_splits)
  have w: "value_size_of m = calcsize ?f"
    by (simp add: calcsize_value_fmt_of)
  have "load bo (header @ body @ bad)
        = load_loop ?f (calcsize ?f) (body @ bad) (int (length (body @ bad))) []"
    by (simp add: load_def h4 header w)
  also have "\<dots> = load_loop ?f (calcsize ?f) bad (int (length bad))
                      (foldl (\<lambda>acc p. AList.update (fst p) (snd p) acc) [] records)"
    by (rule load_loop_dump_items [OF good])
  finally have run: "load bo (header @ body @ bad)
        = load_loop ?f (calcsize ?f) bad (int (length bad))
            (foldl (\<lambda>acc p. AList.update (fst p) (snd p) acc) [] records)" .
  from bad have "load_loop ?f (calcsize ?f) bad (int (length bad))
                   (foldl (\<lambda>acc p. AList.update (fst p) (snd p) acc) [] records) = Inl StructError \<or>
                 load_loop ?f (calcsize ?f) bad (int (length bad))
                   (foldl (\<lambda>acc p. AList.update (fst p) (snd p) acc) [] records) = Inl UnicodeDecodeError"
  proof (elim disjE exE conjE)
    fix L tail
    assume "bad = be_bytes 2 L @ tail" "L < 65536" "length tail < L"
    then show ?thesis
      using load_loop_truncated_term [of L tail ?f] by simp
  next
    fix kb n tail
    assume "bad = be_bytes 2 (length kb) @ kb @ be_bytes (value_size_of m) n @ tail"
      "length kb < 65536" "n < 256 ^ value_size_of m" "length tail < n * value_size_of m"
    then show ?thesis
      using load_loop_truncated_postings [of kb n ?f tail] unfolding w by simp
  qed
  then show ?thesis
    unfolding run by auto
qed

theorem load_truncated_record_witness:
  "unpack_native LittleEndian [1, 0, 0, 0] = Inr 1 \<and>
   dump_items (value_fmt_of 1) [(str ''a'', [1])] = Inr [0, 1, 97, 0, 1, 0, 1] \<and>
   [0, 5, 97] = be_bytes 2 5 @ [97] \<and> (5 :: nat) < 65536 \<and> length [97 :: byte] < 5 \<and>
   (load LittleEndian ([1, 0, 0, 0] @ [0, 1, 97, 0, 1, 0, 1] @ [0, 5, 97]) = Inl StructError \<or>
    load LittleEndian ([1, 0, 0, 0] @ [0, 1, 97, 0, 1, 0, 1] @ [0, 5, 97]) = Inl UnicodeDecodeError) \<and>
   [0, 1, 98, 0, 2, 0, 7] = be_bytes 2 (length [98 :: byte]) @ [98] @ be_bytes (value_size_of 1) 2 @ [0, 7] \<and>
   length [98 :: byte] < 65536 \<and> (2 :: nat) < 256 ^ value_size_of 1 \<and>
   length [0, 7 :: byte] < 2 * value_size_of 1 \<and>
   (load LittleEndian ([1, 0, 0, 0] @ [0, 1, 97, 0, 1, 0, 1] @ [0, 1, 98, 0, 2, 0, 7]) = Inl StructError \<or>
    load LittleEndian ([1, 0, 0, 0] @ [0, 1, 97, 0, 1, 0, 1] @ [0, 1, 98, 0, 2, 0, 7]) = Inl UnicodeDecodeError) \<and>
   load LittleEndian [1, 0, 0, 0, 0, 1, 97, 0, 1, 0, 1, 0, 5, 97] = Inl StructError \<and>
   load LittleEndian [1, 0, 0, 0, 0, 1, 97, 0, 1, 0, 1, 0, 1, 98, 0, 2, 0, 7] = Inl StructError"
proof -
  have header: "unpack_native LittleEndian [1, 0, 0, 0] = Inr 1"
    by (simp add: unpack_native_def native_def unpack_def be_value_def)
  have good: "dump_items (value_fmt_of 1) [(str ''a'', [1])] = Inr [0, 1, 97, 0, 1, 0, 1]"
    by (simp add: dump_eval)
  have t1: "[0, 5, 97] = be_bytes 2 5 @ [97]"
    by (simp add: be_bytes_2)
  have t2: "(5 :: nat) < 65536" by simp
  have t3: "length [97 :: byte] < 5" by simp
  have p1: "[0, 1, 98, 0, 2, 0, 7]
            = be_bytes 2 (length [98 :: byte]) @ [98] @ be_bytes (value_size_of 1) 2 @ [0, 7]"
    by (simp add: be_bytes_2 value_size_of_def)
  have p2: "length [98 :: byte] < 65536" by simp
  have p3: "(2 :: nat) < 256 ^ value_size_of 1" by (simp add: value_size_of_def)
  have p4: "length [0, 7 :: byte] < 2 * value_size_of 1" by (simp add: value_size_of_def)
  have bad1: "(\<exists>L tail. [0, 5, 97] = be_bytes 2 L @ tail \<and> L < 65536 \<and> length tail < L) \<or>
              (\<exists>kb n tail. [0, 5, 97] = be_bytes 2 (length kb) @ kb @ be_bytes (value_size_of 1) n @ tail \<and>
                  length kb < 65536 \<and> n < 256 ^ value_size_of 1 \<and>
                  length tail < n * value_size_of 1)"
    using t1 t2 t3 by blast
  have bad2: "(\<exists>L tail. [0, 1, 98, 0, 2, 0, 7] = be_bytes 2 L @ tail \<and> L < 65536 \<and> length tail < L) \<or>
              (\<exists>kb n tail. [0, 1, 98, 0, 2, 0, 7]
                  = be_bytes 2 (length kb) @ kb @ be_bytes (value_size_of 1) n @ tail \<and>
                  length kb < 65536 \<and> n < 256 ^ value_size_of 1 \<and>
                  length tail < n * value_size_of 1)"
    using p1 p2 p3 p4 by blast
  from load_truncated_record [OF header good bad1]
  have r1: "load LittleEndian ([1, 0, 0, 0] @ [0, 1, 97, 0, 1, 0, 1] @ [0, 5, 97]) = Inl StructError \<or>
    load LittleEndian ([1, 0, 0, 0] @ [0, 1, 97, 0, 1, 0, 1] @ [0, 5, 97]) = Inl UnicodeDecodeError"
    by (rule conjunct1)
  from load_truncated_record [OF header good bad2]
  have r2: "load LittleEndian ([1, 0, 0, 0] @ [0, 1, 97, 0, 1, 0, 1] @ [0, 1, 98, 0, 2, 0, 7]) = Inl StructError \<or>
    load LittleEndian ([1, 0, 0, 0] @ [0, 1, 97, 0, 1, 0, 1] @ [0, 1, 98, 0, 2, 0, 7]) = Inl UnicodeDecodeError"
    by (rule conjunct1)
  have e1: "load LittleEndian [1, 0, 0, 0, 0, 1, 97, 0, 1, 0, 1, 0, 5, 97] = Inl StructError"
    by (simp add: load_eval)
  have e2: "load LittleEndian [1, 0, 0, 0, 0, 1, 97, 0, 1, 0, 1, 0, 1, 98, 0, 2, 0, 7]
            = Inl StructError"
    by (simp add: load_eval)
  from header good t1 t2 t3 r1 p1 p2 p3 p4 r2 e1 e2 show ?thesis by (intro conjI)
qed

end
